theory Spec2Isabelle
  imports Main
begin

section \<open>Machine integers\<close>

text \<open>
  \<^verbatim>\<open>SizeType\<close> is \<^verbatim>\<open>size_t\<close>, an unsigned 64-bit integer. It is modelled as a natural number
  below \<open>2 ^ 64\<close>; wherever the source computes a value that can leave that range
  (\<^verbatim>\<open><<\<close>, \<^verbatim>\<open>+\<close>, \<^verbatim>\<open>-\<close>, \<^verbatim>\<open>++\<close>, \<^verbatim>\<open>--\<close>) the model reduces it with \<open>u64\<close>.
\<close>

definition u64 :: "nat \<Rightarrow> nat" where
  "u64 n = n mod 18446744073709551616"

text \<open>\<^verbatim>\<open>static constexpr SizeType NONE = -1\<close>: the largest \<^verbatim>\<open>size_t\<close>.\<close>

definition NONE :: nat where
  "NONE = 18446744073709551615"

section \<open>The cellar ratio\<close>

text \<open>
  \<^verbatim>\<open>static constexpr float B = 7 / 43.\<close> and \<^verbatim>\<open>cellar_size_ = primary_size_ * B + 1\<close>.
  The expression is evaluated in IEEE binary32 with round-to-nearest-even and no fused
  multiply-add: \<^verbatim>\<open>primary_size_\<close> is converted to \<^verbatim>\<open>float\<close>, multiplied by \<^verbatim>\<open>B\<close>, \<^verbatim>\<open>1.0f\<close> is
  added, and the result is truncated to \<^verbatim>\<open>size_t\<close>. All values involved are positive normal
  numbers, so each of them is an integer multiple of \<open>2 ^ - 26\<close> and the three roundings
  are roundings of a natural number to 24 significant bits.

  \<open>bitlen n\<close> is the number of binary digits of \<open>n\<close>; \<open>round24 n\<close> rounds \<open>n\<close> to 24 significant
  bits, ties to even. \<open>B\<close> itself is \<open>10924699 / 2 ^ 26\<close>, the binary32 number nearest
  to \<open>7 / 43\<close>.
\<close>

fun bitlen :: "nat \<Rightarrow> nat" where
  "bitlen n = (if n = 0 then 0 else Suc (bitlen (n div 2)))"

definition round24 :: "nat \<Rightarrow> nat" where
  "round24 n =
     (if bitlen n \<le> 24 then n
      else let s = bitlen n - 24;
               q = n div 2 ^ s;
               r = n mod 2 ^ s;
               half = 2 ^ (s - 1)
           in (if r < half then q
               else if half < r then q + 1
               else if even q then q else q + 1) * 2 ^ s)"

definition B_mantissa :: nat where
  "B_mantissa = 10924699"

definition cellar_of :: "nat \<Rightarrow> nat" where
  "cellar_of p =
     round24 (round24 (round24 p * B_mantissa) + 67108864) div 67108864"

section \<open>Growth policy tables\<close>

definition PRIMES :: "nat list" where
  "PRIMES = [
   2, 3, 5, 7,
   11, 13, 17, 23,
   29, 37, 47, 59,
   73, 97, 127, 151,
   197, 251, 313, 397,
   499, 631, 797, 1009,
   1259, 1597, 2011, 2539,
   3203, 4027, 5087, 6421,
   8089, 10193, 12853, 16193,
   20399, 25717, 32401, 40823,
   51437, 64811, 81649, 102877,
   129607, 163307, 205759, 259229,
   326617, 411527, 518509, 653267,
   823117, 1037059, 1306601, 1646237,
   2074129, 2613229, 3292489, 4148279,
   5226491, 6584983, 8296553, 10453007,
   13169977, 16593127, 20906033, 26339969,
   33186281, 41812097, 52679969, 66372617,
   83624237, 105359939, 132745199, 167248483,
   210719881, 265490441, 334496971, 421439783,
   530980861, 668993977, 842879579, 1061961721,
   1337987929, 1685759167, 2123923447, 2675975881,
   3371518343, 4247846927, 5351951779, 6743036717,
   8495693897, 10703903591, 13486073473, 16991387857,
   21407807219, 26972146961, 33982775741, 42815614441,
   53944293929, 67965551447, 85631228929, 107888587883,
   135931102921, 171262457903, 215777175787, 271862205833,
   342524915839, 431554351609, 543724411781, 685049831731,
   863108703229, 1087448823553, 1370099663459, 1726217406467,
   2174897647073, 2740199326961, 3452434812973, 4349795294267,
   5480398654009, 6904869625999, 8699590588571, 10960797308051,
   13809739252051, 17399181177241, 21921594616111, 27619478504183,
   34798362354533, 43843189232363, 55238957008387, 69596724709081,
   87686378464759, 110477914016779, 139193449418173, 175372756929481,
   220955828033581, 278386898836457, 350745513859007, 441911656067171,
   556773797672909, 701491027718027, 883823312134381, 1113547595345903,
   1402982055436147, 1767646624268779, 2227095190691797, 2805964110872297,
   3535293248537579, 4454190381383713, 5611928221744609, 7070586497075177,
   8908380762767489, 11223856443489329, 14141172994150357, 17816761525534927,
   22447712886978529, 28282345988300791, 35633523051069991, 44895425773957261,
   56564691976601587, 71267046102139967, 89790851547914507, 113129383953203213,
   142534092204280003, 179581703095829107, 226258767906406483, 285068184408560057,
   359163406191658253, 452517535812813007, 570136368817120201, 718326812383316683,
   905035071625626043, 1140272737634240411, 1436653624766633509, 1810070143251252131,
   2280545475268481167, 2873307249533267101, 3620140286502504283, 4561090950536962147,
   5746614499066534157, 7240280573005008577, 9122181901073924329, 11493228998133068689,
   14480561146010017169, 18446744073709551557]"

text \<open>
  \<^verbatim>\<open>*std::lower_bound(std::begin(PRIMES) + 1, std::end(PRIMES) - 1, value)\<close>: the first
  element not less than \<open>v\<close> of the table without its first and last entries, and the last
  entry (where the range ends) when there is none.
\<close>

definition NextPrime :: "nat \<Rightarrow> nat" where
  "NextPrime v =
     (case List.find (\<lambda>p. v \<le> p) (butlast (tl PRIMES)) of
        Some p \<Rightarrow> p
      | None \<Rightarrow> last PRIMES)"

definition MAX_LOOKUPS :: "(nat \<times> nat) list" where
  "MAX_LOOKUPS = [
   (17, 5), (23, 5), (29, 5),
   (37, 6), (47, 6), (59, 6),
   (73, 7), (97, 7), (127, 7),
   (151, 8), (197, 8), (251, 8),
   (313, 9), (397, 9), (499, 9),
   (631, 10), (797, 10), (1009, 10),
   (1259, 11), (1597, 11), (2011, 11),
   (2539, 12), (3203, 12), (4027, 12),
   (5087, 13), (6421, 13), (8089, 13),
   (10193, 14), (12853, 14), (16193, 14),
   (20399, 15), (25717, 15), (32401, 15),
   (40823, 16), (51437, 16), (64811, 16),
   (81649, 17), (102877, 17), (129607, 17),
   (163307, 18), (205759, 18), (259229, 18),
   (326617, 19), (411527, 19), (518509, 19),
   (653267, 20), (823117, 20), (1037059, 20),
   (1306601, 21), (1646237, 21), (2074129, 21),
   (2613229, 22), (3292489, 22), (4148279, 22),
   (5226491, 23), (6584983, 23), (8296553, 23),
   (10453007, 24), (13169977, 24), (16593127, 24),
   (20906033, 25), (26339969, 25), (33186281, 25),
   (41812097, 26), (52679969, 26), (66372617, 26),
   (83624237, 27), (105359939, 27), (132745199, 27),
   (167248483, 28), (210719881, 28), (265490441, 28),
   (334496971, 29), (421439783, 29), (530980861, 29),
   (668993977, 30), (842879579, 30), (1061961721, 30),
   (1337987929, 31), (1685759167, 31), (2123923447, 31),
   (2675975881, 32), (3371518343, 32), (4247846927, 32),
   (5351951779, 33), (6743036717, 33), (8495693897, 33),
   (10703903591, 34), (13486073473, 34), (16991387857, 34),
   (21407807219, 35), (26972146961, 35), (33982775741, 35),
   (42815614441, 36), (53944293929, 36), (67965551447, 36),
   (85631228929, 37), (107888587883, 37), (135931102921, 37),
   (171262457903, 38), (215777175787, 38), (271862205833, 38),
   (342524915839, 39), (431554351609, 39), (543724411781, 39),
   (685049831731, 40), (863108703229, 40), (1087448823553, 40),
   (1370099663459, 41), (1726217406467, 41), (2174897647073, 41),
   (2740199326961, 42), (3452434812973, 42), (4349795294267, 42),
   (5480398654009, 43), (6904869625999, 43), (8699590588571, 43),
   (10960797308051, 44), (13809739252051, 44), (17399181177241, 44),
   (21921594616111, 45), (27619478504183, 45), (34798362354533, 45),
   (43843189232363, 46), (55238957008387, 46), (69596724709081, 46),
   (87686378464759, 47), (110477914016779, 47), (139193449418173, 47),
   (175372756929481, 48), (220955828033581, 48), (278386898836457, 48),
   (350745513859007, 49), (441911656067171, 49), (556773797672909, 49),
   (701491027718027, 50), (883823312134381, 50), (1113547595345903, 50),
   (1402982055436147, 51), (1767646624268779, 51), (2227095190691797, 51),
   (2805964110872297, 52), (3535293248537579, 52), (4454190381383713, 52),
   (5611928221744609, 53), (7070586497075177, 53), (8908380762767489, 53),
   (11223856443489329, 54), (14141172994150357, 54), (17816761525534927, 54),
   (22447712886978529, 55), (28282345988300791, 55), (35633523051069991, 55),
   (44895425773957261, 56), (56564691976601587, 56), (71267046102139967, 56),
   (89790851547914507, 57), (113129383953203213, 57), (142534092204280003, 57),
   (179581703095829107, 58), (226258767906406483, 58), (285068184408560057, 58),
   (359163406191658253, 59), (452517535812813007, 59), (570136368817120201, 59),
   (718326812383316683, 60), (905035071625626043, 60), (1140272737634240411, 60),
   (1436653624766633509, 61), (1810070143251252131, 61), (2280545475268481167, 61),
   (2873307249533267101, 62), (3620140286502504283, 62), (4561090950536962147, 62),
   (5746614499066534157, 63), (7240280573005008577, 63), (9122181901073924329, 63),
   (11493228998133068689, 64), (14480561146010017169, 64), (18446744073709551557, 64)]"

text \<open>The \<^verbatim>\<open>switch\<close> of \<^verbatim>\<open>GetMaxLookups\<close>, with its \<^verbatim>\<open>default: return 4\<close>.\<close>

definition GetMaxLookups :: "nat \<Rightarrow> nat" where
  "GetMaxLookups primary_size =
     (case map_of MAX_LOOKUPS primary_size of Some l \<Rightarrow> l | None \<Rightarrow> 4)"

section \<open>Data model\<close>

text \<open>
  An iterator of \<^verbatim>\<open>std::list<ValueType>\<close> is the address of a list node, the list's end
  sentinel, or the singular value that \<^verbatim>\<open>iterator()\<close> constructs. Node addresses are natural
  numbers.
\<close>

datatype iterator = Singular | Node nat | End

text \<open>
  \<^verbatim>\<open>struct Data\<close>. The constructor \<^verbatim>\<open>Data()\<close> leaves \<^verbatim>\<open>rev_pos\<close> uninitialised; the source never
  reads it from a slot that is not in use, and the model puts 0 there.
\<close>

record Data =
  "value" :: iterator
  used :: bool
  deleted :: bool
  rev_pos :: nat
  "next" :: nat

definition Data_init :: Data where
  "Data_init = \<lparr>value = Singular, used = False, deleted = False, rev_pos = 0, next = NONE\<rparr>"

text \<open>
  The private fields of \<^verbatim>\<open>HashMap\<close>. \<open>values\<close> is the \<^verbatim>\<open>std::list\<close>: each node is its address
  together with the pair it holds, in list order. \<open>fresh\<close> is the next unused node address
  (the allocator: \<^verbatim>\<open>push_back\<close> makes a node that no live iterator refers to).
\<close>

record ('k, 'v) HashMap =
  "values" :: "(nat \<times> 'k \<times> 'v) list"
  positions :: "nat list"
  data :: "Data list"
  element_count :: nat
  primary_size :: nat
  cellar_size :: nat
  start_pos :: nat
  hasher :: "'k \<Rightarrow> nat"
  fresh :: nat

text \<open>
  Dereferencing an iterator (\<^verbatim>\<open>it->first\<close>, \<^verbatim>\<open>it->second\<close>) is defined for an iterator to a node
  of the list only.
\<close>

definition deref :: "('k, 'v) HashMap \<Rightarrow> iterator \<Rightarrow> ('k \<times> 'v) option" where
  "deref m it = (case it of Node a \<Rightarrow> map_of (values m) a | _ \<Rightarrow> None)"

text \<open>\<^verbatim>\<open>values_.erase(it)\<close> unlinks the node with that address.\<close>

fun list_erase :: "nat \<Rightarrow> (nat \<times> 'a) list \<Rightarrow> (nat \<times> 'a) list" where
  "list_erase a [] = []"
| "list_erase a (n # ns) = (if fst n = a then ns else n # list_erase a ns)"

text \<open>\<^verbatim>\<open>primary_size_ + cellar_size_ - 1\<close> in \<^verbatim>\<open>size_t\<close> arithmetic.\<close>

definition last_index :: "('k, 'v) HashMap \<Rightarrow> nat" where
  "last_index m = u64 (primary_size m + cellar_size m + 18446744073709551615)"

text \<open>\<^verbatim>\<open>hasher_(key) % primary_size_\<close>.\<close>

definition bucket :: "('k, 'v) HashMap \<Rightarrow> 'k \<Rightarrow> nat" where
  "bucket m key = hasher m key mod primary_size m"

section \<open>Lookup\<close>

text \<open>
  The results of the functions below are options. \<open>None\<close> means that the source does not
  return a value: a loop runs forever, or a vector is indexed outside its bounds or an
  iterator that refers to no node is dereferenced (undefined behaviour in C++).

  \<^verbatim>\<open>Find\<close>, lines 205-220.
\<close>

partial_function (option) Find :: "('k, 'v) HashMap \<Rightarrow> 'k \<Rightarrow> nat \<Rightarrow> nat option" where
  "Find m key pos =
     (if pos = NONE then Some NONE
      else if length (data m) \<le> pos then None
      else if used (data m ! pos) then
        (case deref m (value (data m ! pos)) of
           None \<Rightarrow> None
         | Some kv \<Rightarrow>
             if fst kv = key then Some pos else Find m key (next (data m ! pos)))
      else if \<not> deleted (data m ! pos) then Some NONE
      else Find m key (next (data m ! pos)))"

declare Find.simps [code]

section \<open>Insertion and rehashing\<close>

text \<open>
  The chain walk of \<^verbatim>\<open>Insert\<close>, lines 232-235:
  \<^verbatim>\<open>while (data_[pos].next != NONE && !data_[pos].deleted) { pos = data_[pos].next; ++distance; }\<close>.
  It returns the slot where the walk stops and the distance.
\<close>

partial_function (option) Insert_walk :: "Data list \<Rightarrow> nat \<Rightarrow> nat \<Rightarrow> (nat \<times> nat) option" where
  "Insert_walk d pos distance =
     (if length d \<le> pos then None
      else if next (d ! pos) \<noteq> NONE \<and> \<not> deleted (d ! pos)
        then Insert_walk d (next (d ! pos)) (u64 (distance + 1))
      else Some (pos, distance))"

text \<open>
  The search for a slot of \<^verbatim>\<open>Insert\<close>, lines 238-251. \<open>Some None\<close> is the early exit to
  \<^verbatim>\<open>Rehash\<close> (line 247), \<open>Some (Some next_free)\<close> is the normal end of the loop.
\<close>

partial_function (option) Insert_scan ::
    "('k, 'v) HashMap \<Rightarrow> nat \<Rightarrow> nat \<Rightarrow> nat option option" where
  "Insert_scan m next_free distance =
     (if length (data m) \<le> next_free then None
      else if used (data m ! next_free) then
        (if primary_size m < u64 (4 * element_count m)
            \<and> GetMaxLookups (primary_size m) < u64 (distance + 1)
         then Some None
         else Insert_scan m (if next_free = 0 then last_index m else next_free - 1)
                (u64 (distance + 1)))
      else Some (Some next_free))"

declare Insert_walk.simps [code]
declare Insert_scan.simps [code]

text \<open>The end of \<^verbatim>\<open>Insert\<close>, lines 258-266: the entry goes into slot \<open>pos\<close>.\<close>

definition Insert_place ::
    "('k, 'v) HashMap \<Rightarrow> 'k \<times> 'v \<Rightarrow> nat \<Rightarrow> (('k, 'v) HashMap \<times> nat) option" where
  "Insert_place m x pos =
     (if length (data m) \<le> pos then None
      else Some
        (m\<lparr>values := values m @ [(fresh m, x)],
           fresh := Suc (fresh m),
           data := (data m)[pos := (data m ! pos)
              \<lparr>value := Node (fresh m), used := True, deleted := False,
               rev_pos := length (positions m)\<rparr>],
           positions := positions m @ [pos],
           element_count := u64 (element_count m + 1)\<rparr>, pos))"

text \<open>The first five statements of \<^verbatim>\<open>Rehash\<close>, lines 276-280.\<close>

definition Rehash_reset :: "('k, 'v) HashMap \<Rightarrow> nat \<Rightarrow> ('k, 'v) HashMap" where
  "Rehash_reset m n =
     (let p = NextPrime n; c = cellar_of p
      in m\<lparr>element_count := 0, primary_size := p, cellar_size := c,
           start_pos := u64 (p + c + 18446744073709551615),
           data := replicate (u64 (p + c)) Data_init\<rparr>)"

text \<open>
  \<^verbatim>\<open>Insert\<close> (lines 223-267) and \<^verbatim>\<open>Rehash\<close> (lines 275-289) call each other. The first
  argument bounds the depth of these calls: \<open>Insert (Suc n)\<close> may call \<open>Rehash n\<close> and
  \<open>Insert n\<close>, \<open>Rehash (Suc n)\<close> runs its loop with \<open>Insert n\<close>, and depth 0 gives \<open>None\<close>.
  \<open>Insert_all\<close> is the loop \<^verbatim>\<open>for (const auto &x : values) Insert(x, hasher_(x.first) % primary_size_)\<close>
  of \<^verbatim>\<open>Rehash\<close>, of the copy constructor and of the copy assignment.
\<close>

fun Insert :: "nat \<Rightarrow> ('k, 'v) HashMap \<Rightarrow> 'k \<times> 'v \<Rightarrow> nat \<Rightarrow> (('k, 'v) HashMap \<times> nat) option"
  and Rehash :: "nat \<Rightarrow> ('k, 'v) HashMap \<Rightarrow> nat \<Rightarrow> ('k, 'v) HashMap option"
  and Insert_all :: "nat \<Rightarrow> ('k, 'v) HashMap \<Rightarrow> ('k \<times> 'v) list \<Rightarrow> ('k, 'v) HashMap option"
where
  "Insert 0 m x pos = None"
| "Insert (Suc n) m x pos =
     (case (if primary_size m < u64 (2 * element_count m)
            then (case Rehash n m (u64 (2 * primary_size m)) of
                    None \<Rightarrow> None
                  | Some m' \<Rightarrow> Some (m', bucket m' (fst x)))
            else Some (m, pos)) of
        None \<Rightarrow> None
      | Some (m1, pos1) \<Rightarrow>
          if length (data m1) \<le> pos1 then None
          else if used (data m1 ! pos1) then
            (case Insert_walk (data m1) pos1 0 of
               None \<Rightarrow> None
             | Some (pos2, distance) \<Rightarrow>
                 if used (data m1 ! pos2) then
                   (case Insert_scan m1 (start_pos m1) distance of
                      None \<Rightarrow> None
                    | Some None \<Rightarrow>
                        (case Rehash n m1 (u64 (2 * primary_size m1)) of
                           None \<Rightarrow> None
                         | Some m2 \<Rightarrow> Insert n m2 x (bucket m2 (fst x)))
                    | Some (Some next_free) \<Rightarrow>
                        Insert_place
                          (m1\<lparr>start_pos := next_free,
                              data := (data m1)[pos2 := (data m1 ! pos2)\<lparr>next := next_free\<rparr>]\<rparr>)
                          x next_free)
                 else Insert_place m1 x pos2)
          else Insert_place m1 x pos1)"
| "Rehash 0 m n' =
     (if values m = [] then Some (Rehash_reset m n') else None)"
| "Rehash (Suc n) m n' =
     (if values m = [] then Some (Rehash_reset m n')
      else Insert_all n ((Rehash_reset m n')\<lparr>values := [], positions := []\<rparr>)
             (map snd (values m)))"
| "Insert_all n m [] = Some m"
| "Insert_all n m (x # xs) =
     (case Insert n m x (bucket m (fst x)) of
        None \<Rightarrow> None
      | Some (m', pos) \<Rightarrow> Insert_all n m' xs)"

section \<open>Public operations\<close>

text \<open>
  The object before the body of the default constructor runs: the containers are empty and
  the scalar fields are not yet initialised (\<^verbatim>\<open>Rehash\<close> assigns them before any is read).
\<close>

definition blank :: "('k \<Rightarrow> nat) \<Rightarrow> ('k, 'v) HashMap" where
  "blank hf =
     \<lparr>values = [], positions = [], data = [], element_count = 0, primary_size = 0,
      cellar_size = 0, start_pos = 0, hasher = hf, fresh = 0\<rparr>"

text \<open>\<^verbatim>\<open>explicit HashMap(const Hasher &hf)\<close>, lines 29-31.\<close>

definition HashMap_default :: "('k \<Rightarrow> nat) \<Rightarrow> ('k, 'v) HashMap option" where
  "HashMap_default hf = Rehash 0 (blank hf) 0"

text \<open>\<^verbatim>\<open>values_.push_back(x)\<close> for each element of a range.\<close>

fun push_back_all :: "('k, 'v) HashMap \<Rightarrow> ('k \<times> 'v) list \<Rightarrow> ('k, 'v) HashMap" where
  "push_back_all m [] = m"
| "push_back_all m (x # xs) =
     push_back_all (m\<lparr>values := values m @ [(fresh m, x)], fresh := Suc (fresh m)\<rparr>) xs"

text \<open>
  \<^verbatim>\<open>HashMap(InputIterator first, InputIterator last, const Hasher &hf)\<close>, lines 35-40; the
  range is given as the list of its elements.
\<close>

definition HashMap_range ::
    "nat \<Rightarrow> ('k \<times> 'v) list \<Rightarrow> ('k \<Rightarrow> nat) \<Rightarrow> ('k, 'v) HashMap option" where
  "HashMap_range n xs hf =
     (case HashMap_default hf of
        None \<Rightarrow> None
      | Some m \<Rightarrow>
          (let m' = push_back_all m xs
           in Rehash n m' (u64 (2 * length (values m')))))"

text \<open>\<^verbatim>\<open>HashMap(std::initializer_list<...> list, const Hasher &hf)\<close>, lines 43-50.\<close>

definition HashMap_initializer_list ::
    "nat \<Rightarrow> ('k \<times> 'v) list \<Rightarrow> ('k \<Rightarrow> nat) \<Rightarrow> ('k, 'v) HashMap option" where
  "HashMap_initializer_list n xs hf =
     (case HashMap_default hf of
        None \<Rightarrow> None
      | Some m \<Rightarrow>
          (let m' = push_back_all m (map (\<lambda>i. xs ! i) [0 ..< length xs])
           in Rehash n m' (u64 (2 * length (values m')))))"

text \<open>\<^verbatim>\<open>HashMap(const HashMap &other)\<close>, lines 53-66.\<close>

definition HashMap_copy :: "nat \<Rightarrow> ('k, 'v) HashMap \<Rightarrow> ('k, 'v) HashMap option" where
  "HashMap_copy n other =
     Insert_all n
       \<lparr>values = [], positions = [],
        data = replicate (u64 (primary_size other + cellar_size other)) Data_init,
        element_count = 0, primary_size = primary_size other,
        cellar_size = cellar_size other,
        start_pos = u64 (primary_size other + cellar_size other + 18446744073709551615),
        hasher = hasher other, fresh = 0\<rparr>
       (map snd (values other))"

text \<open>
  \<^verbatim>\<open>operator=\<close>, lines 69-85. \<^verbatim>\<open>this->values_ != other.values_\<close> compares the two lists of
  pairs element by element.
\<close>

definition operator_assign ::
    "nat \<Rightarrow> ('k, 'v) HashMap \<Rightarrow> ('k, 'v) HashMap \<Rightarrow> ('k, 'v) HashMap option" where
  "operator_assign n this other =
     (if map snd (values this) \<noteq> map snd (values other) then
        Insert_all n
          (this\<lparr>values := [], positions := [], element_count := 0,
                primary_size := primary_size other, cellar_size := cellar_size other,
                start_pos := u64 (primary_size other + cellar_size other
                                   + 18446744073709551615),
                hasher := hasher other,
                data := replicate (u64 (primary_size other + cellar_size other)) Data_init\<rparr>)
          (map snd (values other))
      else Some this)"

text \<open>\<^verbatim>\<open>size\<close> and \<^verbatim>\<open>empty\<close>, lines 88-95.\<close>

definition size_hm :: "('k, 'v) HashMap \<Rightarrow> nat" where
  "size_hm m = element_count m"

definition empty_hm :: "('k, 'v) HashMap \<Rightarrow> bool" where
  "empty_hm m = (size_hm m = 0)"

text \<open>The loop of \<^verbatim>\<open>clear\<close>, lines 100-102.\<close>

fun clear_slots :: "Data list \<Rightarrow> nat list \<Rightarrow> Data list option" where
  "clear_slots d [] = Some d"
| "clear_slots d (pos # ps) =
     (if length d \<le> pos then None else clear_slots (d[pos := Data_init]) ps)"

text \<open>\<^verbatim>\<open>clear\<close>, lines 98-106.\<close>

definition clear :: "('k, 'v) HashMap \<Rightarrow> ('k, 'v) HashMap option" where
  "clear m =
     (case clear_slots (data m) (positions m) of
        None \<Rightarrow> None
      | Some d \<Rightarrow>
          Some (m\<lparr>values := [], data := d, positions := [], element_count := 0,
                  start_pos := last_index m\<rparr>))"

text \<open>\<^verbatim>\<open>insert\<close>, lines 109-114.\<close>

definition insert_hm :: "nat \<Rightarrow> ('k, 'v) HashMap \<Rightarrow> 'k \<times> 'v \<Rightarrow> ('k, 'v) HashMap option" where
  "insert_hm n m x =
     (let h = bucket m (fst x)
      in case Find m (fst x) h of
           None \<Rightarrow> None
         | Some pos \<Rightarrow>
             if pos = NONE then map_option fst (Insert n m x h) else Some m)"

text \<open>
  \<^verbatim>\<open>erase\<close>, lines 117-129. \<^verbatim>\<open>positions_.back()\<close> needs a non-empty vector, the indices must
  be inside their vectors and \<^verbatim>\<open>values_.erase\<close> needs an iterator to a node of the list.
\<close>

definition erase :: "('k, 'v) HashMap \<Rightarrow> 'k \<Rightarrow> ('k, 'v) HashMap option" where
  "erase m key =
     (case Find m key (bucket m key) of
        None \<Rightarrow> None
      | Some pos \<Rightarrow>
          if pos \<noteq> NONE then
            (if length (data m) \<le> pos \<or> positions m = []
                \<or> length (data m) \<le> last (positions m)
             then None
             else
               let d1 = (data m)[last (positions m) :=
                           (data m ! last (positions m))\<lparr>rev_pos := rev_pos (data m ! pos)\<rparr>];
                   r = rev_pos (d1 ! pos)
               in if length (positions m) \<le> r then None
                  else
                    (case value (d1 ! pos) of
                       Node a \<Rightarrow>
                         if a \<in> fst ` set (values m) then
                           Some (m\<lparr>positions :=
                                     butlast ((positions m)
                                       [r := last (positions m),
                                        length (positions m) - 1 := positions m ! r]),
                                   values := list_erase a (values m),
                                   data := d1[pos := (d1 ! pos)
                                     \<lparr>value := Singular, used := False, deleted := True\<rparr>],
                                   element_count :=
                                     u64 (element_count m + 18446744073709551615)\<rparr>)
                         else None
                     | _ \<Rightarrow> None))
          else Some m)"

text \<open>
  \<^verbatim>\<open>find\<close>, lines 151-166: the iterator stored in the slot, or \<^verbatim>\<open>end()\<close>.
\<close>

definition find_hm :: "('k, 'v) HashMap \<Rightarrow> 'k \<Rightarrow> iterator option" where
  "find_hm m key =
     (case Find m key (bucket m key) of
        None \<Rightarrow> None
      | Some pos \<Rightarrow>
          if pos = NONE then Some End
          else if length (data m) \<le> pos then None
          else Some (value (data m ! pos)))"

text \<open>
  \<^verbatim>\<open>at\<close>, lines 132-138. \<^verbatim>\<open>throw std::out_of_range\<close> is the error \<open>KeyNotFound\<close>; it is the only
  \<^verbatim>\<open>throw\<close> of the source.
\<close>

datatype error = KeyNotFound

definition at :: "('k, 'v) HashMap \<Rightarrow> 'k \<Rightarrow> (error + 'v) option" where
  "at m key =
     (case find_hm m key of
        None \<Rightarrow> None
      | Some it \<Rightarrow>
          if it = End then Some (Inl KeyNotFound)
          else (case deref m it of None \<Rightarrow> None | Some kv \<Rightarrow> Some (Inr (snd kv))))"

text \<open>
  \<^verbatim>\<open>operator[]\<close>, lines 141-148. \<open>dflt\<close> is \<^verbatim>\<open>MappedType()\<close>. The reference that the source
  returns is given as the iterator of the node and the value found there.
\<close>

definition operator_index ::
    "nat \<Rightarrow> ('k, 'v) HashMap \<Rightarrow> 'k \<Rightarrow> 'v \<Rightarrow> (('k, 'v) HashMap \<times> iterator \<times> 'v) option" where
  "operator_index n m key dflt =
     (let h = bucket m key
      in case Find m key h of
           None \<Rightarrow> None
         | Some pos \<Rightarrow>
             if pos \<noteq> NONE then
               (if length (data m) \<le> pos then None
                else case deref m (value (data m ! pos)) of
                       None \<Rightarrow> None
                     | Some kv \<Rightarrow> Some (m, value (data m ! pos), snd kv))
             else
               (case Insert n m (key, dflt) h of
                  None \<Rightarrow> None
                | Some (m', pos') \<Rightarrow>
                    if length (data m') \<le> pos' then None
                    else case deref m' (value (data m' ! pos')) of
                           None \<Rightarrow> None
                         | Some kv \<Rightarrow> Some (m', value (data m' ! pos'), snd kv)))"

text \<open>
  Iterating from \<^verbatim>\<open>begin()\<close> to \<^verbatim>\<open>end()\<close> (lines 169-186) visits the nodes of \<^verbatim>\<open>values_\<close> in
  list order.
\<close>

definition iterate :: "('k, 'v) HashMap \<Rightarrow> ('k \<times> 'v) list" where
  "iterate m = map snd (values m)"

text \<open>\<^verbatim>\<open>hash_function\<close>, lines 189-191.\<close>

definition hash_function :: "('k, 'v) HashMap \<Rightarrow> 'k \<Rightarrow> nat" where
  "hash_function m = hasher m"


section \<open>Sequences of operations and reachable states\<close>

text \<open>The mutating public operations, as data, and a run of a list of them.\<close>

datatype ('k, 'v) operation = Op_insert 'k 'v | Op_erase 'k | Op_clear

fun apply_ops ::
    "nat \<Rightarrow> ('k, 'v) HashMap \<Rightarrow> ('k, 'v) operation list \<Rightarrow> ('k, 'v) HashMap option" where
  "apply_ops n m [] = Some m"
| "apply_ops n m (Op_insert k v # os) =
     (case insert_hm n m (k, v) of None \<Rightarrow> None | Some m' \<Rightarrow> apply_ops n m' os)"
| "apply_ops n m (Op_erase k # os) =
     (case erase m k of None \<Rightarrow> None | Some m' \<Rightarrow> apply_ops n m' os)"
| "apply_ops n m (Op_clear # os) =
     (case clear m of None \<Rightarrow> None | Some m' \<Rightarrow> apply_ops n m' os)"

text \<open>
  The states that the constructors and the public operations produce, starting from nothing
  but the constructors' arguments.
\<close>

inductive reachable :: "('k, 'v) HashMap \<Rightarrow> bool" where
  by_default: "HashMap_default hf = Some m \<Longrightarrow> reachable m"
| by_range: "HashMap_range n xs hf = Some m \<Longrightarrow> reachable m"
| by_initializer_list: "HashMap_initializer_list n xs hf = Some m \<Longrightarrow> reachable m"
| by_copy: "reachable other \<Longrightarrow> HashMap_copy n other = Some m \<Longrightarrow> reachable m"
| by_assign: "reachable this \<Longrightarrow> reachable other \<Longrightarrow>
     operator_assign n this other = Some m \<Longrightarrow> reachable m"
| by_clear: "reachable m \<Longrightarrow> clear m = Some m' \<Longrightarrow> reachable m'"
| by_insert: "reachable m \<Longrightarrow> insert_hm n m x = Some m' \<Longrightarrow> reachable m'"
| by_erase: "reachable m \<Longrightarrow> erase m key = Some m' \<Longrightarrow> reachable m'"
| by_index: "reachable m \<Longrightarrow> operator_index n m key dflt = Some (m', r) \<Longrightarrow> reachable m'"

text \<open>
  The position index and the slots agree: \<^verbatim>\<open>positions_\<close> is as long as \<^verbatim>\<open>values_\<close>, holds
  slot indices only, and every slot in use is found in it at its \<^verbatim>\<open>rev_pos\<close>.
\<close>

definition positions_ok :: "('k, 'v) HashMap \<Rightarrow> bool" where
  "positions_ok m \<longleftrightarrow>
     length (positions m) = length (values m) \<and>
     (\<forall>p \<in> set (positions m). p < length (data m)) \<and>
     (\<forall>i < length (data m). used (data m ! i) \<longrightarrow>
        rev_pos (data m ! i) < length (positions m) \<and>
        positions m ! rev_pos (data m ! i) = i)"

text \<open>
  One step of the search for a slot in \<^verbatim>\<open>Insert\<close> (lines 239-243): down by one, and from
  slot 0 to the last slot of the table.
\<close>

definition scan_prev :: "('k, 'v) HashMap \<Rightarrow> nat \<Rightarrow> nat" where
  "scan_prev m i = (if i = 0 then last_index m else i - 1)"

text \<open>
  \<open>reaches d p i\<close>: from slot \<open>p\<close> the \<^verbatim>\<open>next\<close> links lead to slot \<open>i\<close>, and every slot left
  on the way is in use or a tombstone. This is the way that \<^verbatim>\<open>Find\<close> can walk.
\<close>

inductive reaches :: "Data list \<Rightarrow> nat \<Rightarrow> nat \<Rightarrow> bool" for d where
  here: "p < length d \<Longrightarrow> reaches d p p"
| step: "p < length d \<Longrightarrow> used (d ! p) \<or> deleted (d ! p) \<Longrightarrow>
     reaches d (next (d ! p)) i \<Longrightarrow> reaches d p i"

text \<open>
  The slots, the chains and the entry list agree: the table has fewer than \<^verbatim>\<open>NONE\<close> slots;
  the nodes of \<^verbatim>\<open>values_\<close> have distinct addresses below \<open>fresh\<close>; no slot is both in use and
  deleted; an Empty slot has no link; every slot in use holds an iterator to a node of the
  list and is reached from the bucket of that node's key; every node is held by a slot in
  use, and no two slots in use hold the same node.
\<close>

definition chains_ok :: "('k, 'v) HashMap \<Rightarrow> bool" where
  "chains_ok m \<longleftrightarrow>
     length (data m) \<le> NONE \<and>
     distinct (map fst (values m)) \<and>
     (\<forall>a \<in> fst ` set (values m). a < fresh m) \<and>
     (\<forall>i < length (data m). \<not> (used (data m ! i) \<and> deleted (data m ! i))) \<and>
     (\<forall>i < length (data m). \<not> used (data m ! i) \<and> \<not> deleted (data m ! i) \<longrightarrow>
        next (data m ! i) = NONE) \<and>
     (\<forall>i < length (data m). used (data m ! i) \<longrightarrow>
        (\<exists>a kv. value (data m ! i) = Node a \<and> map_of (values m) a = Some kv \<and>
           reaches (data m) (bucket m (fst kv)) i)) \<and>
     (\<forall>a \<in> fst ` set (values m).
        \<exists>i < length (data m). used (data m ! i) \<and> value (data m ! i) = Node a) \<and>
     (\<forall>i < length (data m). \<forall>j < length (data m).
        used (data m ! i) \<and> used (data m ! j) \<and> value (data m ! i) = value (data m ! j) \<longrightarrow>
        i = j)"

section \<open>A reference map\<close>

text \<open>
  The reference that the specification compares the container with: a partial map in
  which \<open>insert\<close> adds the pair only if the key is absent and \<open>erase\<close> removes the key.
\<close>

fun reference_ops :: "('k \<rightharpoonup> 'v) \<Rightarrow> ('k, 'v) operation list \<Rightarrow> ('k \<rightharpoonup> 'v)" where
  "reference_ops r [] = r"
| "reference_ops r (Op_insert k v # os) =
     reference_ops (if k \<in> dom r then r else r(k \<mapsto> v)) os"
| "reference_ops r (Op_erase k # os) = reference_ops (r(k := None)) os"
| "reference_ops r (Op_clear # os) = reference_ops Map.empty os"

section \<open>Concrete states\<close>

text \<open>
  \<^verbatim>\<open>std::hash\<close> of an unsigned integer key is the identity in libstdc++; the concrete runs
  below use it. The states are the ones that the runs go through.
\<close>

definition identity_hash :: "nat \<Rightarrow> nat" where
  "identity_hash k = k"

definition cycle_0 :: "(nat, nat) HashMap" where
  "cycle_0 =
     \<lparr>values = [],
      positions = [],
      data = [Data_init,
        Data_init,
        Data_init,
        Data_init],
      element_count = 0, primary_size = 3, cellar_size = 1, start_pos = 3,
      hasher = identity_hash, fresh = 0\<rparr>"

definition cycle_ops :: "(nat, nat) operation list" where
  "cycle_ops =
     [Op_insert 0 0, Op_insert 7 7, Op_insert 14 14, Op_insert 21 21, Op_erase 21, Op_erase 14, Op_insert 5 5, Op_insert 12 12, Op_erase 5, Op_insert 6 6]"

definition cycle_1 :: "(nat, nat) HashMap" where
  "cycle_1 =
     \<lparr>values = [(0, 0, 0)],
      positions = [0],
      data = [\<lparr>value = Node 0, used = True, deleted = False, rev_pos = 0, next = NONE\<rparr>,
        Data_init,
        Data_init,
        Data_init],
      element_count = 1, primary_size = 3, cellar_size = 1, start_pos = 3,
      hasher = identity_hash, fresh = 1\<rparr>"

definition cycle_2 :: "(nat, nat) HashMap" where
  "cycle_2 =
     \<lparr>values = [(0, 0, 0), (1, 7, 7)],
      positions = [0, 1],
      data = [\<lparr>value = Node 0, used = True, deleted = False, rev_pos = 0, next = NONE\<rparr>,
        \<lparr>value = Node 1, used = True, deleted = False, rev_pos = 1, next = NONE\<rparr>,
        Data_init,
        Data_init],
      element_count = 2, primary_size = 3, cellar_size = 1, start_pos = 3,
      hasher = identity_hash, fresh = 2\<rparr>"

definition cycle_3 :: "(nat, nat) HashMap" where
  "cycle_3 =
     \<lparr>values = [(2, 0, 0), (3, 7, 7), (4, 14, 14)],
      positions = [0, 8, 7],
      data = [\<lparr>value = Node 2, used = True, deleted = False, rev_pos = 0, next = 8\<rparr>,
        Data_init,
        Data_init,
        Data_init,
        Data_init,
        Data_init,
        Data_init,
        \<lparr>value = Node 4, used = True, deleted = False, rev_pos = 2, next = NONE\<rparr>,
        \<lparr>value = Node 3, used = True, deleted = False, rev_pos = 1, next = 7\<rparr>],
      element_count = 3, primary_size = 7, cellar_size = 2, start_pos = 7,
      hasher = identity_hash, fresh = 5\<rparr>"

definition cycle_4 :: "(nat, nat) HashMap" where
  "cycle_4 =
     \<lparr>values = [(2, 0, 0), (3, 7, 7), (4, 14, 14), (5, 21, 21)],
      positions = [0, 8, 7, 6],
      data = [\<lparr>value = Node 2, used = True, deleted = False, rev_pos = 0, next = 8\<rparr>,
        Data_init,
        Data_init,
        Data_init,
        Data_init,
        Data_init,
        \<lparr>value = Node 5, used = True, deleted = False, rev_pos = 3, next = NONE\<rparr>,
        \<lparr>value = Node 4, used = True, deleted = False, rev_pos = 2, next = 6\<rparr>,
        \<lparr>value = Node 3, used = True, deleted = False, rev_pos = 1, next = 7\<rparr>],
      element_count = 4, primary_size = 7, cellar_size = 2, start_pos = 6,
      hasher = identity_hash, fresh = 6\<rparr>"

definition cycle_5 :: "(nat, nat) HashMap" where
  "cycle_5 =
     \<lparr>values = [(2, 0, 0), (3, 7, 7), (4, 14, 14)],
      positions = [0, 8, 7],
      data = [\<lparr>value = Node 2, used = True, deleted = False, rev_pos = 0, next = 8\<rparr>,
        Data_init,
        Data_init,
        Data_init,
        Data_init,
        Data_init,
        \<lparr>value = Singular, used = False, deleted = True, rev_pos = 3, next = NONE\<rparr>,
        \<lparr>value = Node 4, used = True, deleted = False, rev_pos = 2, next = 6\<rparr>,
        \<lparr>value = Node 3, used = True, deleted = False, rev_pos = 1, next = 7\<rparr>],
      element_count = 3, primary_size = 7, cellar_size = 2, start_pos = 6,
      hasher = identity_hash, fresh = 6\<rparr>"

definition cycle_6 :: "(nat, nat) HashMap" where
  "cycle_6 =
     \<lparr>values = [(2, 0, 0), (3, 7, 7)],
      positions = [0, 8],
      data = [\<lparr>value = Node 2, used = True, deleted = False, rev_pos = 0, next = 8\<rparr>,
        Data_init,
        Data_init,
        Data_init,
        Data_init,
        Data_init,
        \<lparr>value = Singular, used = False, deleted = True, rev_pos = 3, next = NONE\<rparr>,
        \<lparr>value = Singular, used = False, deleted = True, rev_pos = 2, next = 6\<rparr>,
        \<lparr>value = Node 3, used = True, deleted = False, rev_pos = 1, next = 7\<rparr>],
      element_count = 2, primary_size = 7, cellar_size = 2, start_pos = 6,
      hasher = identity_hash, fresh = 6\<rparr>"

definition cycle_7 :: "(nat, nat) HashMap" where
  "cycle_7 =
     \<lparr>values = [(2, 0, 0), (3, 7, 7), (6, 5, 5)],
      positions = [0, 8, 5],
      data = [\<lparr>value = Node 2, used = True, deleted = False, rev_pos = 0, next = 8\<rparr>,
        Data_init,
        Data_init,
        Data_init,
        Data_init,
        \<lparr>value = Node 6, used = True, deleted = False, rev_pos = 2, next = NONE\<rparr>,
        \<lparr>value = Singular, used = False, deleted = True, rev_pos = 3, next = NONE\<rparr>,
        \<lparr>value = Singular, used = False, deleted = True, rev_pos = 2, next = 6\<rparr>,
        \<lparr>value = Node 3, used = True, deleted = False, rev_pos = 1, next = 7\<rparr>],
      element_count = 3, primary_size = 7, cellar_size = 2, start_pos = 6,
      hasher = identity_hash, fresh = 7\<rparr>"

definition cycle_8 :: "(nat, nat) HashMap" where
  "cycle_8 =
     \<lparr>values = [(2, 0, 0), (3, 7, 7), (6, 5, 5), (7, 12, 12)],
      positions = [0, 8, 5, 6],
      data = [\<lparr>value = Node 2, used = True, deleted = False, rev_pos = 0, next = 8\<rparr>,
        Data_init,
        Data_init,
        Data_init,
        Data_init,
        \<lparr>value = Node 6, used = True, deleted = False, rev_pos = 2, next = 6\<rparr>,
        \<lparr>value = Node 7, used = True, deleted = False, rev_pos = 3, next = NONE\<rparr>,
        \<lparr>value = Singular, used = False, deleted = True, rev_pos = 2, next = 6\<rparr>,
        \<lparr>value = Node 3, used = True, deleted = False, rev_pos = 1, next = 7\<rparr>],
      element_count = 4, primary_size = 7, cellar_size = 2, start_pos = 6,
      hasher = identity_hash, fresh = 8\<rparr>"

definition cycle_9 :: "(nat, nat) HashMap" where
  "cycle_9 =
     \<lparr>values = [(2, 0, 0), (3, 7, 7), (7, 12, 12)],
      positions = [0, 8, 6],
      data = [\<lparr>value = Node 2, used = True, deleted = False, rev_pos = 0, next = 8\<rparr>,
        Data_init,
        Data_init,
        Data_init,
        Data_init,
        \<lparr>value = Singular, used = False, deleted = True, rev_pos = 2, next = 6\<rparr>,
        \<lparr>value = Node 7, used = True, deleted = False, rev_pos = 2, next = NONE\<rparr>,
        \<lparr>value = Singular, used = False, deleted = True, rev_pos = 2, next = 6\<rparr>,
        \<lparr>value = Node 3, used = True, deleted = False, rev_pos = 1, next = 7\<rparr>],
      element_count = 3, primary_size = 7, cellar_size = 2, start_pos = 6,
      hasher = identity_hash, fresh = 8\<rparr>"

definition cycle_10 :: "(nat, nat) HashMap" where
  "cycle_10 =
     \<lparr>values = [(2, 0, 0), (3, 7, 7), (7, 12, 12), (8, 6, 6)],
      positions = [0, 8, 6, 5],
      data = [\<lparr>value = Node 2, used = True, deleted = False, rev_pos = 0, next = 8\<rparr>,
        Data_init,
        Data_init,
        Data_init,
        Data_init,
        \<lparr>value = Node 8, used = True, deleted = False, rev_pos = 3, next = 6\<rparr>,
        \<lparr>value = Node 7, used = True, deleted = False, rev_pos = 2, next = 5\<rparr>,
        \<lparr>value = Singular, used = False, deleted = True, rev_pos = 2, next = 6\<rparr>,
        \<lparr>value = Node 3, used = True, deleted = False, rev_pos = 1, next = 7\<rparr>],
      element_count = 4, primary_size = 7, cellar_size = 2, start_pos = 5,
      hasher = identity_hash, fresh = 9\<rparr>"

definition cleared_6 :: "(nat, nat) HashMap" where
  "cleared_6 =
     \<lparr>values = [],
      positions = [],
      data = [Data_init,
        Data_init,
        Data_init,
        Data_init,
        Data_init,
        Data_init,
        \<lparr>value = Singular, used = False, deleted = True, rev_pos = 3, next = NONE\<rparr>,
        \<lparr>value = Singular, used = False, deleted = True, rev_pos = 2, next = 6\<rparr>,
        Data_init],
      element_count = 0, primary_size = 7, cellar_size = 2, start_pos = 8,
      hasher = identity_hash, fresh = 6\<rparr>"




definition dup_2 :: "(nat, nat) HashMap" where
  "dup_2 =
     \<lparr>values = [(2, 1, 10), (3, 1, 20)],
      positions = [1, 5],
      data = [Data_init,
        \<lparr>value = Node 2, used = True, deleted = False, rev_pos = 0, next = 5\<rparr>,
        Data_init,
        Data_init,
        Data_init,
        \<lparr>value = Node 3, used = True, deleted = False, rev_pos = 1, next = NONE\<rparr>],
      element_count = 2, primary_size = 5, cellar_size = 1, start_pos = 5,
      hasher = identity_hash, fresh = 4\<rparr>"

definition cycle_2_rehashed :: "(nat, nat) HashMap" where
  "cycle_2_rehashed =
     \<lparr>values = [(2, 0, 0), (3, 7, 7)],
      positions = [0, 8],
      data = [\<lparr>value = Node 2, used = True, deleted = False, rev_pos = 0, next = 8\<rparr>,
        Data_init,
        Data_init,
        Data_init,
        Data_init,
        Data_init,
        Data_init,
        Data_init,
        \<lparr>value = Node 3, used = True, deleted = False, rev_pos = 1, next = NONE\<rparr>],
      element_count = 2, primary_size = 7, cellar_size = 2, start_pos = 8,
      hasher = identity_hash, fresh = 4\<rparr>"


definition cycle_2_erased :: "(nat, nat) HashMap" where
  "cycle_2_erased =
     \<lparr>values = [(0, 0, 0)],
      positions = [0],
      data = [\<lparr>value = Node 0, used = True, deleted = False, rev_pos = 0, next = NONE\<rparr>,
        \<lparr>value = Singular, used = False, deleted = True, rev_pos = 1, next = NONE\<rparr>,
        Data_init,
        Data_init],
      element_count = 1, primary_size = 3, cellar_size = 1, start_pos = 3,
      hasher = identity_hash, fresh = 2\<rparr>"

definition refill_1 :: "(nat, nat) HashMap" where
  "refill_1 =
     \<lparr>values = [(6, 6, 6)],
      positions = [6],
      data = [Data_init,
        Data_init,
        Data_init,
        Data_init,
        Data_init,
        Data_init,
        \<lparr>value = Node 6, used = True, deleted = False, rev_pos = 0, next = NONE\<rparr>,
        \<lparr>value = Singular, used = False, deleted = True, rev_pos = 2, next = 6\<rparr>,
        Data_init],
      element_count = 1, primary_size = 7, cellar_size = 2, start_pos = 8,
      hasher = identity_hash, fresh = 7\<rparr>"

definition refill_2 :: "(nat, nat) HashMap" where
  "refill_2 =
     \<lparr>values = [(6, 6, 6), (7, 0, 0)],
      positions = [6, 0],
      data = [\<lparr>value = Node 7, used = True, deleted = False, rev_pos = 1, next = NONE\<rparr>,
        Data_init,
        Data_init,
        Data_init,
        Data_init,
        Data_init,
        \<lparr>value = Node 6, used = True, deleted = False, rev_pos = 0, next = NONE\<rparr>,
        \<lparr>value = Singular, used = False, deleted = True, rev_pos = 2, next = 6\<rparr>,
        Data_init],
      element_count = 2, primary_size = 7, cellar_size = 2, start_pos = 8,
      hasher = identity_hash, fresh = 8\<rparr>"

definition refill_3 :: "(nat, nat) HashMap" where
  "refill_3 =
     \<lparr>values = [(6, 6, 6), (7, 0, 0), (8, 7, 7)],
      positions = [6, 0, 8],
      data = [\<lparr>value = Node 7, used = True, deleted = False, rev_pos = 1, next = 8\<rparr>,
        Data_init,
        Data_init,
        Data_init,
        Data_init,
        Data_init,
        \<lparr>value = Node 6, used = True, deleted = False, rev_pos = 0, next = NONE\<rparr>,
        \<lparr>value = Singular, used = False, deleted = True, rev_pos = 2, next = 6\<rparr>,
        \<lparr>value = Node 8, used = True, deleted = False, rev_pos = 2, next = NONE\<rparr>],
      element_count = 3, primary_size = 7, cellar_size = 2, start_pos = 8,
      hasher = identity_hash, fresh = 9\<rparr>"

definition refill_4 :: "(nat, nat) HashMap" where
  "refill_4 =
     \<lparr>values = [(6, 6, 6), (7, 0, 0), (8, 7, 7), (9, 13, 13)],
      positions = [6, 0, 8, 7],
      data = [\<lparr>value = Node 7, used = True, deleted = False, rev_pos = 1, next = 8\<rparr>,
        Data_init,
        Data_init,
        Data_init,
        Data_init,
        Data_init,
        \<lparr>value = Node 6, used = True, deleted = False, rev_pos = 0, next = 7\<rparr>,
        \<lparr>value = Node 9, used = True, deleted = False, rev_pos = 3, next = 6\<rparr>,
        \<lparr>value = Node 8, used = True, deleted = False, rev_pos = 2, next = NONE\<rparr>],
      element_count = 4, primary_size = 7, cellar_size = 2, start_pos = 7,
      hasher = identity_hash, fresh = 10\<rparr>"

definition refill_ops :: "(nat, nat) operation list" where
  "refill_ops =
     [Op_insert 6 6, Op_insert 0 0, Op_insert 7 7, Op_insert 13 13]"

definition fresh_1 :: "(nat, nat) HashMap" where
  "fresh_1 =
     \<lparr>values = [(0, 6, 6)],
      positions = [0],
      data = [\<lparr>value = Node 0, used = True, deleted = False, rev_pos = 0, next = NONE\<rparr>,
        Data_init,
        Data_init,
        Data_init],
      element_count = 1, primary_size = 3, cellar_size = 1, start_pos = 3,
      hasher = identity_hash, fresh = 1\<rparr>"

definition fresh_2 :: "(nat, nat) HashMap" where
  "fresh_2 =
     \<lparr>values = [(0, 6, 6), (1, 0, 0)],
      positions = [0, 3],
      data = [\<lparr>value = Node 0, used = True, deleted = False, rev_pos = 0, next = 3\<rparr>,
        Data_init,
        Data_init,
        \<lparr>value = Node 1, used = True, deleted = False, rev_pos = 1, next = NONE\<rparr>],
      element_count = 2, primary_size = 3, cellar_size = 1, start_pos = 3,
      hasher = identity_hash, fresh = 2\<rparr>"

definition fresh_3 :: "(nat, nat) HashMap" where
  "fresh_3 =
     \<lparr>values = [(2, 6, 6), (3, 0, 0), (4, 7, 7)],
      positions = [6, 0, 8],
      data = [\<lparr>value = Node 3, used = True, deleted = False, rev_pos = 1, next = 8\<rparr>,
        Data_init,
        Data_init,
        Data_init,
        Data_init,
        Data_init,
        \<lparr>value = Node 2, used = True, deleted = False, rev_pos = 0, next = NONE\<rparr>,
        Data_init,
        \<lparr>value = Node 4, used = True, deleted = False, rev_pos = 2, next = NONE\<rparr>],
      element_count = 3, primary_size = 7, cellar_size = 2, start_pos = 8,
      hasher = identity_hash, fresh = 5\<rparr>"

definition fresh_4 :: "(nat, nat) HashMap" where
  "fresh_4 =
     \<lparr>values = [(2, 6, 6), (3, 0, 0), (4, 7, 7), (5, 13, 13)],
      positions = [6, 0, 8, 7],
      data = [\<lparr>value = Node 3, used = True, deleted = False, rev_pos = 1, next = 8\<rparr>,
        Data_init,
        Data_init,
        Data_init,
        Data_init,
        Data_init,
        \<lparr>value = Node 2, used = True, deleted = False, rev_pos = 0, next = 7\<rparr>,
        \<lparr>value = Node 5, used = True, deleted = False, rev_pos = 3, next = NONE\<rparr>,
        \<lparr>value = Node 4, used = True, deleted = False, rev_pos = 2, next = NONE\<rparr>],
      element_count = 4, primary_size = 7, cellar_size = 2, start_pos = 7,
      hasher = identity_hash, fresh = 6\<rparr>"


section \<open>Evaluation of the tables\<close>

lemma cellar_of_3: "cellar_of 3 = 1"
  by (simp add: cellar_of_def round24_def B_mantissa_def Let_def)

lemma cellar_of_5: "cellar_of 5 = 1"
  by (simp add: cellar_of_def round24_def B_mantissa_def Let_def)

lemma cellar_of_7: "cellar_of 7 = 2"
  by (simp add: cellar_of_def round24_def B_mantissa_def Let_def)

lemma NextPrime_0: "NextPrime 0 = 3"
  by (simp add: NextPrime_def PRIMES_def)

lemma NextPrime_4: "NextPrime 4 = 5"
  by (simp add: NextPrime_def PRIMES_def)

lemma NextPrime_6: "NextPrime 6 = 7"
  by (simp add: NextPrime_def PRIMES_def)

lemma GetMaxLookups_3: "GetMaxLookups 3 = 4"
  by (simp add: GetMaxLookups_def MAX_LOOKUPS_def)

lemma GetMaxLookups_5: "GetMaxLookups 5 = 4"
  by (simp add: GetMaxLookups_def MAX_LOOKUPS_def)

lemma GetMaxLookups_7: "GetMaxLookups 7 = 4"
  by (simp add: GetMaxLookups_def MAX_LOOKUPS_def)

lemma replicate_numeral: "replicate (numeral k) x = x # replicate (pred_numeral k) x"
  by (simp add: numeral_eq_Suc)

lemmas evals =
  insert_hm_def erase_def bucket_def Find.simps Insert_walk.simps Insert_scan.simps
  Insert_place_def deref_def identity_hash_def NONE_def u64_def last_index_def Let_def
  Data_init_def Rehash_reset_def replicate_numeral
  NextPrime_0 NextPrime_4 NextPrime_6 cellar_of_3 cellar_of_5 cellar_of_7
  GetMaxLookups_3 GetMaxLookups_5 GetMaxLookups_7

section \<open>The concrete runs\<close>

lemma default_cycle_0: "HashMap_default identity_hash = Some cycle_0"
  by (simp add: HashMap_default_def blank_def evals cycle_0_def)

lemma cycle_step_1: "insert_hm (Suc (Suc (Suc 0))) cycle_0 (0, 0) = Some cycle_1"
  by (simp add: evals cycle_0_def cycle_1_def)

lemma cycle_step_2: "insert_hm (Suc (Suc (Suc 0))) cycle_1 (7, 7) = Some cycle_2"
  by (simp add: evals cycle_1_def cycle_2_def)

lemma cycle_step_3: "insert_hm (Suc (Suc (Suc 0))) cycle_2 (14, 14) = Some cycle_3"
  by (simp add: evals cycle_2_def cycle_3_def)

lemma cycle_step_4: "insert_hm (Suc (Suc (Suc 0))) cycle_3 (21, 21) = Some cycle_4"
  by (simp add: evals cycle_3_def cycle_4_def)

lemma cycle_step_5: "erase cycle_4 21 = Some cycle_5"
  by (simp add: evals cycle_4_def cycle_5_def)

lemma cycle_step_6: "erase cycle_5 14 = Some cycle_6"
  by (simp add: evals cycle_5_def cycle_6_def)

lemma cycle_step_7: "insert_hm (Suc (Suc (Suc 0))) cycle_6 (5, 5) = Some cycle_7"
  by (simp add: evals cycle_6_def cycle_7_def)

lemma cycle_step_8: "insert_hm (Suc (Suc (Suc 0))) cycle_7 (12, 12) = Some cycle_8"
  by (simp add: evals cycle_7_def cycle_8_def)

lemma cycle_step_9: "erase cycle_8 5 = Some cycle_9"
  by (simp add: evals cycle_8_def cycle_9_def)

lemma cycle_step_10: "insert_hm (Suc (Suc (Suc 0))) cycle_9 (6, 6) = Some cycle_10"
  by (simp add: evals cycle_9_def cycle_10_def)

lemma clear_cycle_6: "clear cycle_6 = Some cleared_6"
  by (simp add: clear_def evals cycle_6_def cleared_6_def)




lemma dup_step: "HashMap_initializer_list (Suc (Suc (Suc 0))) [(1, 10), (1, 20)] identity_hash = Some dup_2"
  by (simp add: HashMap_initializer_list_def default_cycle_0 cycle_0_def evals dup_2_def)

lemma cycle_2_rehash: "Rehash (Suc (Suc (Suc 0))) cycle_2 6 = Some cycle_2_rehashed"
  by (simp add: evals cycle_2_def cycle_2_rehashed_def)

lemma cycle_3_Insert: "Insert (Suc (Suc (Suc 0))) cycle_2 (14, 14) 2 = Some (cycle_3, 7)"
  by (simp add: evals cycle_2_def cycle_3_def)


lemma cycle_2_erase: "erase cycle_2 7 = Some cycle_2_erased"
  by (simp add: evals cycle_2_def cycle_2_erased_def)

lemma refill_step_1: "insert_hm (Suc (Suc (Suc 0))) cleared_6 (6, 6) = Some refill_1"
  by (simp add: evals cleared_6_def refill_1_def)

lemma refill_step_2: "insert_hm (Suc (Suc (Suc 0))) refill_1 (0, 0) = Some refill_2"
  by (simp add: evals refill_1_def refill_2_def)

lemma refill_step_3: "insert_hm (Suc (Suc (Suc 0))) refill_2 (7, 7) = Some refill_3"
  by (simp add: evals refill_2_def refill_3_def)

lemma refill_step_4: "insert_hm (Suc (Suc (Suc 0))) refill_3 (13, 13) = Some refill_4"
  by (simp add: evals refill_3_def refill_4_def)

lemma fresh_step_1: "insert_hm (Suc (Suc (Suc 0))) cycle_0 (6, 6) = Some fresh_1"
  by (simp add: evals cycle_0_def fresh_1_def)

lemma fresh_step_2: "insert_hm (Suc (Suc (Suc 0))) fresh_1 (0, 0) = Some fresh_2"
  by (simp add: evals fresh_1_def fresh_2_def)

lemma fresh_step_3: "insert_hm (Suc (Suc (Suc 0))) fresh_2 (7, 7) = Some fresh_3"
  by (simp add: evals fresh_2_def fresh_3_def)

lemma fresh_step_4: "insert_hm (Suc (Suc (Suc 0))) fresh_3 (13, 13) = Some fresh_4"
  by (simp add: evals fresh_3_def fresh_4_def)



section \<open>Insertion and rehashing, case by case\<close>

lemma Insert_Suc_cases [consumes 1, case_names direct exitA exitB retry]:
  assumes "Insert (Suc n) m x pos = Some (m', p)"
  obtains
    (direct) m1 pos1 where
      "(\<not> primary_size m < u64 (2 * element_count m) \<and> m1 = m \<and> pos1 = pos) \<or>
       (primary_size m < u64 (2 * element_count m) \<and>
        Rehash n m (u64 (2 * primary_size m)) = Some m1 \<and> pos1 = bucket m1 (fst x))"
      "pos1 < length (data m1)" "\<not> used (data m1 ! pos1)"
      "Insert_place m1 x pos1 = Some (m', p)"
  | (exitA) m1 pos1 pos2 d where
      "(\<not> primary_size m < u64 (2 * element_count m) \<and> m1 = m \<and> pos1 = pos) \<or>
       (primary_size m < u64 (2 * element_count m) \<and>
        Rehash n m (u64 (2 * primary_size m)) = Some m1 \<and> pos1 = bucket m1 (fst x))"
      "pos1 < length (data m1)" "used (data m1 ! pos1)"
      "Insert_walk (data m1) pos1 0 = Some (pos2, d)" "\<not> used (data m1 ! pos2)"
      "Insert_place m1 x pos2 = Some (m', p)"
  | (exitB) m1 pos1 pos2 d nf where
      "(\<not> primary_size m < u64 (2 * element_count m) \<and> m1 = m \<and> pos1 = pos) \<or>
       (primary_size m < u64 (2 * element_count m) \<and>
        Rehash n m (u64 (2 * primary_size m)) = Some m1 \<and> pos1 = bucket m1 (fst x))"
      "pos1 < length (data m1)" "used (data m1 ! pos1)"
      "Insert_walk (data m1) pos1 0 = Some (pos2, d)" "used (data m1 ! pos2)"
      "Insert_scan m1 (start_pos m1) d = Some (Some nf)"
      "Insert_place
         (m1\<lparr>start_pos := nf, data := (data m1)[pos2 := (data m1 ! pos2)\<lparr>next := nf\<rparr>]\<rparr>)
         x nf = Some (m', p)"
  | (retry) m1 pos1 pos2 d m2 where
      "(\<not> primary_size m < u64 (2 * element_count m) \<and> m1 = m \<and> pos1 = pos) \<or>
       (primary_size m < u64 (2 * element_count m) \<and>
        Rehash n m (u64 (2 * primary_size m)) = Some m1 \<and> pos1 = bucket m1 (fst x))"
      "pos1 < length (data m1)" "used (data m1 ! pos1)"
      "Insert_walk (data m1) pos1 0 = Some (pos2, d)" "used (data m1 ! pos2)"
      "Insert_scan m1 (start_pos m1) d = Some None"
      "Rehash n m1 (u64 (2 * primary_size m1)) = Some m2"
      "Insert n m2 x (bucket m2 (fst x)) = Some (m', p)"
  using assms
  by (auto split: if_splits option.splits prod.splits simp: not_le)


lemma Insert_Rehash_invariant:
  assumes place: "\<And>m x pos m' p. I m \<Longrightarrow> Insert_place m x pos = Some (m', p) \<Longrightarrow> I m'"
    and link: "\<And>m pos2 nf. I m \<Longrightarrow>
      I (m\<lparr>start_pos := nf, data := (data m)[pos2 := (data m ! pos2)\<lparr>next := nf\<rparr>]\<rparr>)"
    and reset: "\<And>m t. I0 m \<Longrightarrow> I ((Rehash_reset m t)\<lparr>values := [], positions := []\<rparr>)"
    and reset_empty: "\<And>m t. I0 m \<Longrightarrow> values m = [] \<Longrightarrow> I (Rehash_reset m t)"
    and weaken: "\<And>m. I m \<Longrightarrow> I0 m"
  shows "(\<forall>m x pos m' p. I m \<longrightarrow> Insert n m x pos = Some (m', p) \<longrightarrow> I m') \<and>
         (\<forall>m t m'. I0 m \<longrightarrow> Rehash n m t = Some m' \<longrightarrow> I m') \<and>
         (\<forall>m xs m'. I m \<longrightarrow> Insert_all n m xs = Some m' \<longrightarrow> I m')"
proof (induction n)
  case 0
  have "Insert_all 0 m xs = Some m' \<Longrightarrow> m' = m" for m :: "('a, 'b) HashMap" and xs m'
    by (cases xs) auto
  then show ?case
    by (auto simp: reset_empty split: if_splits)
next
  case (Suc n)
  have ins: "I m'" if "I m" and "Insert (Suc n) m x pos = Some (m', p)" for m x pos m' p
    using that(2)
  proof (cases rule: Insert_Suc_cases)
    case (direct m1 pos1)
    with Suc that(1) weaken have "I m1" by blast
    with direct show ?thesis using place by blast
  next
    case (exitA m1 pos1 pos2 d)
    with Suc that(1) weaken have "I m1" by blast
    with exitA show ?thesis using place by blast
  next
    case (exitB m1 pos1 pos2 d nf)
    with Suc that(1) weaken have "I m1" by blast
    with exitB show ?thesis using place link by blast
  next
    case (retry m1 pos1 pos2 d m2)
    with Suc that(1) weaken have "I m1" by blast
    with retry Suc weaken have "I m2" by blast
    with retry Suc show ?thesis by blast
  qed
  have all: "I m \<Longrightarrow> Insert_all (Suc n) m xs = Some m' \<Longrightarrow> I m'" for m xs m'
  proof (induction xs arbitrary: m)
    case Nil
    then show ?case by simp
  next
    case (Cons x xs)
    from Cons.prems(2) obtain m1 p where
      s1: "Insert (Suc n) m x (bucket m (fst x)) = Some (m1, p)"
      and s2: "Insert_all (Suc n) m1 xs = Some m'"
      by (simp del: Insert.simps split: option.splits prod.splits)
    from ins [OF Cons.prems(1) s1] have "I m1" .
    from Cons.IH [OF this s2] show ?case .
  qed
  have reh: "I m'" if "I0 m" and "Rehash (Suc n) m t = Some m'" for m t m'
  proof (cases "values m = []")
    case True
    with that have "m' = Rehash_reset m t" by simp
    with reset_empty [OF that(1) True] show ?thesis by simp
  next
    case False
    with that have
      "Insert_all n ((Rehash_reset m t)\<lparr>values := [], positions := []\<rparr>) (map snd (values m)) = Some m'"
      by simp
    moreover from Suc have
      "\<And>m xs m'. I m \<Longrightarrow> Insert_all n m xs = Some m' \<Longrightarrow> I m'"
      by blast
    ultimately show ?thesis using reset [OF that(1)] by blast
  qed
  show ?case
  proof (intro conjI allI impI)
    fix m x pos m' p
    assume "I m" "Insert (Suc n) m x pos = Some (m', p)"
    then show "I m'" by (rule ins)
  next
    fix m t m'
    assume "I0 m" "Rehash (Suc n) m t = Some m'"
    then show "I m'" by (rule reh)
  next
    fix m xs m'
    assume "I m" "Insert_all (Suc n) m xs = Some m'"
    then show "I m'" by (rule all)
  qed
qed


lemma Insert_all_0: "Insert_all 0 m xs = Some m' \<Longrightarrow> xs = [] \<and> m' = m"
  by (cases xs) auto

lemma Insert_place_iterate:
  "Insert_place m x pos = Some (m', p) \<Longrightarrow> iterate m' = iterate m @ [x]"
  by (auto simp: Insert_place_def iterate_def split: if_splits)

lemma Insert_Rehash_iterate:
  "(\<forall>(m :: ('k, 'v) HashMap) x pos m' p.
      Insert n m x pos = Some (m', p) \<longrightarrow> iterate m' = iterate m @ [x]) \<and>
   (\<forall>(m :: ('k, 'v) HashMap) t m'. Rehash n m t = Some m' \<longrightarrow> iterate m' = iterate m) \<and>
   (\<forall>(m :: ('k, 'v) HashMap) xs m'.
      Insert_all n m xs = Some m' \<longrightarrow> iterate m' = iterate m @ xs)"
proof (induction n)
  case 0
  show ?case
    by (auto simp: Rehash_reset_def iterate_def Let_def split: if_splits dest: Insert_all_0)
next
  case (Suc n)
  from Suc have ihI: "Insert n m x pos = Some (m', p) \<Longrightarrow> iterate m' = iterate m @ [x]"
    for m :: "('k, 'v) HashMap" and x pos m' p by blast
  from Suc have ihR: "Rehash n m t = Some m' \<Longrightarrow> iterate m' = iterate m"
    for m :: "('k, 'v) HashMap" and t m' by blast
  from Suc have ihA: "Insert_all n m xs = Some m' \<Longrightarrow> iterate m' = iterate m @ xs"
    for m :: "('k, 'v) HashMap" and xs m' by blast
  have ins: "iterate m' = iterate m @ [x]"
    if "Insert (Suc n) m x pos = Some (m', p)" for m :: "('k, 'v) HashMap" and x pos m' p
    using that
  proof (cases rule: Insert_Suc_cases)
    case (direct m1 pos1)
    from direct(1) ihR have "iterate m1 = iterate m" by blast
    with Insert_place_iterate [OF direct(4)] show ?thesis by simp
  next
    case (exitA m1 pos1 pos2 d)
    from exitA(1) ihR have "iterate m1 = iterate m" by blast
    with Insert_place_iterate [OF exitA(6)] show ?thesis by simp
  next
    case (exitB m1 pos1 pos2 d nf)
    from exitB(1) ihR have "iterate m1 = iterate m" by blast
    with Insert_place_iterate [OF exitB(7)] show ?thesis by (simp add: iterate_def)
  next
    case (retry m1 pos1 pos2 d m2)
    from retry(1) ihR have "iterate m1 = iterate m" by blast
    moreover from ihR [OF retry(7)] have "iterate m2 = iterate m1" .
    moreover from ihI [OF retry(8)] have "iterate m' = iterate m2 @ [x]" .
    ultimately show ?thesis by simp
  qed
  have all: "Insert_all (Suc n) m xs = Some m' \<Longrightarrow> iterate m' = iterate m @ xs"
    for m :: "('k, 'v) HashMap" and xs m'
  proof (induction xs arbitrary: m)
    case Nil
    then show ?case by simp
  next
    case (Cons x xs)
    from Cons.prems obtain m1 p where
      s1: "Insert (Suc n) m x (bucket m (fst x)) = Some (m1, p)"
      and s2: "Insert_all (Suc n) m1 xs = Some m'"
      by (simp del: Insert.simps split: option.splits prod.splits)
    from ins [OF s1] Cons.IH [OF s2] show ?case by simp
  qed
  have reh: "iterate m' = iterate m" if "Rehash (Suc n) m t = Some m'"
    for m :: "('k, 'v) HashMap" and t m'
  proof (cases "values m = []")
    case True
    with that show ?thesis by (auto simp: Rehash_reset_def iterate_def Let_def)
  next
    case False
    with that have
      "Insert_all n ((Rehash_reset m t)\<lparr>values := [], positions := []\<rparr>) (map snd (values m)) = Some m'"
      by simp
    from ihA [OF this] show ?thesis by (simp add: iterate_def)
  qed
  show ?case
  proof (intro conjI allI impI)
    fix m :: "('k, 'v) HashMap" and x pos m' p
    assume "Insert (Suc n) m x pos = Some (m', p)"
    then show "iterate m' = iterate m @ [x]" by (rule ins)
  next
    fix m :: "('k, 'v) HashMap" and t m'
    assume "Rehash (Suc n) m t = Some m'"
    then show "iterate m' = iterate m" by (rule reh)
  next
    fix m :: "('k, 'v) HashMap" and xs m'
    assume "Insert_all (Suc n) m xs = Some m'"
    then show "iterate m' = iterate m @ xs" by (rule all)
  qed
qed

lemma Insert_iterate: "Insert n m x pos = Some (m', p) \<Longrightarrow> iterate m' = iterate m @ [x]"
  using Insert_Rehash_iterate by blast

lemma Rehash_iterate: "Rehash n m t = Some m' \<Longrightarrow> iterate m' = iterate m"
  using Insert_Rehash_iterate by blast



lemma Find_Some:
  "Find m key pos = Some r \<Longrightarrow>
     r = NONE \<or> (r < length (data m) \<and> used (data m ! r) \<and>
       (\<exists>kv. deref m (value (data m ! r)) = Some kv \<and> fst kv = key))"
proof (induction rule: Find.raw_induct [rotated 1, consumes 1])
  case (1 Find' m key pos r)
  then show ?case
    by (auto split: if_splits option.splits simp: not_le)
qed


section \<open>The entry list\<close>

lemma list_erase_split:
  "map_of vs a = Some kv \<Longrightarrow>
     \<exists>ys zs. map snd vs = ys @ kv # zs \<and> map snd (list_erase a vs) = ys @ zs"
proof (induction vs)
  case Nil
  then show ?case by simp
next
  case (Cons n ns)
  show ?case
  proof (cases "fst n = a")
    case True
    with Cons.prems have "snd n = kv" by (cases n) simp
    with True have "map snd (n # ns) = [] @ kv # map snd ns \<and>
        map snd (list_erase a (n # ns)) = [] @ map snd ns" by simp
    then show ?thesis by blast
  next
    case False
    with Cons.prems have "map_of ns a = Some kv" by (cases n) (simp split: if_splits)
    from Cons.IH [OF this] obtain ys zs where
      "map snd ns = ys @ kv # zs" "map snd (list_erase a ns) = ys @ zs" by blast
    with False have "map snd (n # ns) = (snd n # ys) @ kv # zs \<and>
        map snd (list_erase a (n # ns)) = (snd n # ys) @ zs" by simp
    then show ?thesis by blast
  qed
qed

lemma insert_hm_iterate:
  assumes "insert_hm n m x = Some m'"
  shows "iterate m' =
    (if Find m (fst x) (bucket m (fst x)) = Some NONE then iterate m @ [x] else iterate m)"
proof (cases "Find m (fst x) (bucket m (fst x))")
  case None
  with assms show ?thesis by (simp add: insert_hm_def)
next
  case (Some r)
  show ?thesis
  proof (cases "r = NONE")
    case True
    with Some assms obtain p where
      "Insert n m x (bucket m (fst x)) = Some (m', p)"
      by (auto simp: insert_hm_def Let_def)
    from Insert_iterate [OF this] Some True show ?thesis by simp
  next
    case False
    with Some assms show ?thesis by (simp add: insert_hm_def Let_def)
  qed
qed

lemma erase_iterate:
  assumes "erase m key = Some m'"
  shows "if Find m key (bucket m key) = Some NONE then iterate m' = iterate m
         else \<exists>ys v zs. iterate m = ys @ (key, v) # zs \<and> iterate m' = ys @ zs"
proof (cases "Find m key (bucket m key)")
  case None
  with assms show ?thesis by (simp add: erase_def)
next
  case (Some r)
  show ?thesis
  proof (cases "r = NONE")
    case True
    with Some assms show ?thesis by (simp add: erase_def)
  next
    case False
    with Find_Some [OF Some] obtain kv where
      r: "r < length (data m)" and kv: "deref m (value (data m ! r)) = Some kv"
      and key: "fst kv = key" by blast
    from kv obtain a where a: "value (data m ! r) = Node a" and
      look: "map_of (values m) a = Some kv"
      by (auto simp: deref_def split: iterator.splits)
    have val: "value ((data m)[l := (data m ! l)\<lparr>rev_pos := q\<rparr>] ! r) = Node a" for l q
      using a r by (cases "l = r") simp_all
    from assms Some False r val have "values m' = list_erase a (values m)"
      by (auto simp: erase_def Let_def split: if_splits)
    with list_erase_split [OF look] obtain ys zs where
      "iterate m = ys @ kv # zs" "iterate m' = ys @ zs"
      by (auto simp: iterate_def)
    with key have "iterate m = ys @ (key, snd kv) # zs \<and> iterate m' = ys @ zs"
      by (cases kv) auto
    with Some False show ?thesis by auto
  qed
qed


section \<open>A chain that runs in a circle\<close>

lemma cycle_run: "apply_ops (Suc (Suc (Suc 0))) cycle_0 cycle_ops = Some cycle_10"
  by (simp add: cycle_ops_def cycle_step_1 cycle_step_2 cycle_step_3 cycle_step_4 cycle_step_5
      cycle_step_6 cycle_step_7 cycle_step_8 cycle_step_9 cycle_step_10)

lemma cycle_reference: "reference_ops Map.empty cycle_ops 13 = None"
  by (simp add: cycle_ops_def)

lemma cycle_10_Find_not_Some: "Find cycle_10 13 pos = Some r \<Longrightarrow> pos \<noteq> 5 \<and> pos \<noteq> 6"
proof (induction cycle_10 "13 :: nat" pos r rule: Find.raw_induct [rotated 1, consumes 1])
  case (1 Find' pos r)
  show ?case
  proof (rule ccontr)
    assume "\<not> (pos \<noteq> 5 \<and> pos \<noteq> 6)"
    then consider "pos = 5" | "pos = 6" by blast
    then show False
    proof cases
      case 1
      with "1.hyps"(2) have "Find' cycle_10 13 6 = Some r"
        by (simp add: cycle_10_def deref_def NONE_def)
      with "1.hyps"(1) show False by blast
    next
      case 2
      with "1.hyps"(2) have "Find' cycle_10 13 5 = Some r"
        by (simp add: cycle_10_def deref_def NONE_def)
      with "1.hyps"(1) show False by blast
    qed
  qed
qed

lemma cycle_10_Find: "Find cycle_10 13 6 = None"
  using cycle_10_Find_not_Some [of 6] by (cases "Find cycle_10 13 6") auto

lemma cycle_10_walk_not_Some:
  "Insert_walk (data cycle_10) pos dist = Some r \<Longrightarrow> pos \<noteq> 5 \<and> pos \<noteq> 6"
proof (induction "data cycle_10" pos dist r rule: Insert_walk.raw_induct [rotated 1, consumes 1])
  case (1 walk' pos dist r)
  show ?case
  proof (rule ccontr)
    assume "\<not> (pos \<noteq> 5 \<and> pos \<noteq> 6)"
    then consider "pos = 5" | "pos = 6" by blast
    then show False
    proof cases
      case 1
      with "1.hyps"(2) have "walk' (data cycle_10) 6 (u64 (dist + 1)) = Some r"
        by (simp add: cycle_10_def NONE_def)
      with "1.hyps"(1) show False by blast
    next
      case 2
      with "1.hyps"(2) have "walk' (data cycle_10) 5 (u64 (dist + 1)) = Some r"
        by (simp add: cycle_10_def NONE_def)
      with "1.hyps"(1) show False by blast
    qed
  qed
qed

lemma cycle_10_walk: "Insert_walk (data cycle_10) 6 0 = None"
  using cycle_10_walk_not_Some [of 6 0] by (cases "Insert_walk (data cycle_10) 6 0") auto

lemma cycle_10_bucket: "bucket cycle_10 13 = 6"
  by (simp add: bucket_def cycle_10_def identity_hash_def)

text \<open>
  Claim C1, at the input where the code leaves it. The ten operations \<open>cycle_ops\<close> take the
  default-constructed map to \<open>cycle_10\<close>. The reference map does not hold key 13 after them,
  so \<^verbatim>\<open>find(13)\<close> has to answer with the end sentinel; in the container \<^verbatim>\<open>find(13)\<close> does not
  return.
\<close>

theorem find_diverges_where_reference_answers:
  "HashMap_default identity_hash = Some cycle_0 \<and>
   apply_ops (Suc (Suc (Suc 0))) cycle_0 cycle_ops = Some cycle_10 \<and>
   reference_ops Map.empty cycle_ops 13 = None \<and>
   map_of (iterate cycle_10) 13 = None \<and>
   find_hm cycle_10 13 = None"
  by (simp add: default_cycle_0 cycle_run cycle_reference find_hm_def cycle_10_bucket
      cycle_10_Find) (simp add: iterate_def cycle_10_def)

text \<open>
  Claim C3, at the same state: key 13 is absent from \<open>cycle_10\<close>, and \<^verbatim>\<open>operator[](13)\<close> does
  not return, whatever the depth allowed to \<^verbatim>\<open>Insert\<close> and whatever the default value.
\<close>

theorem operator_index_diverges:
  "apply_ops (Suc (Suc (Suc 0))) cycle_0 cycle_ops = Some cycle_10 \<and>
   map_of (iterate cycle_10) 13 = None \<and>
   operator_index n cycle_10 13 dflt = None"
  by (simp add: cycle_run operator_index_def cycle_10_bucket cycle_10_Find)
     (simp add: iterate_def cycle_10_def)

text \<open>
  Claim C5, at the same state: slot 5 links to slot 6 and slot 6 links back to slot 5, both
  in use, so the walk of \<^verbatim>\<open>Find\<close> for key 13 (bucket 6) and the chain walk of \<^verbatim>\<open>Insert\<close> from
  bucket 6 never end.
\<close>

theorem chain_cycle_reached:
  "apply_ops (Suc (Suc (Suc 0))) cycle_0 cycle_ops = Some cycle_10 \<and>
   used (data cycle_10 ! 5) \<and> next (data cycle_10 ! 5) = 6 \<and>
   used (data cycle_10 ! 6) \<and> next (data cycle_10 ! 6) = 5 \<and>
   bucket cycle_10 13 = 6 \<and>
   Find cycle_10 13 6 = None \<and>
   Insert_walk (data cycle_10) 6 0 = None"
  by (simp add: cycle_run cycle_10_bucket cycle_10_Find cycle_10_walk)
     (simp add: cycle_10_def)

section \<open>Duplicate keys in a constructor's input\<close>

lemma dup_range:
  "HashMap_range (Suc (Suc (Suc 0))) [(1, 10), (1, 20)] identity_hash = Some dup_2"
  by (simp add: HashMap_range_def default_cycle_0 cycle_0_def evals dup_2_def)

text \<open>
  Claim C4, at the input where the code leaves it. Constructed from the list
  \<open>[(1, 10), (1, 20)]\<close>, by the range constructor or the initializer-list constructor, the
  map holds both pairs: key 1 sits in slot 1 and in slot 5, and \<^verbatim>\<open>size()\<close> is 2.
\<close>

theorem constructors_keep_duplicate_keys:
  "HashMap_initializer_list (Suc (Suc (Suc 0))) [(1, 10), (1, 20)] identity_hash = Some dup_2 \<and>
   HashMap_range (Suc (Suc (Suc 0))) [(1, 10), (1, 20)] identity_hash = Some dup_2 \<and>
   iterate dup_2 = [(1, 10), (1, 20)] \<and>
   size_hm dup_2 = 2 \<and>
   used (data dup_2 ! 1) \<and> deref dup_2 (value (data dup_2 ! 1)) = Some (1, 10) \<and>
   used (data dup_2 ! 5) \<and> deref dup_2 (value (data dup_2 ! 5)) = Some (1, 20)"
proof (intro conjI)
  show "HashMap_initializer_list (Suc (Suc (Suc 0))) [(1, 10), (1, 20)] identity_hash
      = Some dup_2"
    by (rule dup_step)
  show "HashMap_range (Suc (Suc (Suc 0))) [(1, 10), (1, 20)] identity_hash = Some dup_2"
    by (rule dup_range)
qed (simp_all add: dup_2_def iterate_def size_hm_def deref_def)


section \<open>The position index\<close>

lemma list_erase_length:
  "a \<in> fst ` set vs \<Longrightarrow> Suc (length (list_erase a vs)) = length vs"
  by (induction vs) auto

lemma positions_ok_place:
  assumes "positions_ok m" and "Insert_place m x pos = Some (m', p)"
  shows "positions_ok m'"
proof -
  from assms(2) have pos: "pos < length (data m)"
    and m': "m' = m\<lparr>values := values m @ [(fresh m, x)], fresh := Suc (fresh m),
        data := (data m)[pos := (data m ! pos)
          \<lparr>value := Node (fresh m), used := True, deleted := False,
           rev_pos := length (positions m)\<rparr>],
        positions := positions m @ [pos],
        element_count := u64 (element_count m + 1)\<rparr>"
    by (auto simp: Insert_place_def split: if_splits)
  from assms(1) have len: "length (positions m) = length (values m)"
    and rng: "\<forall>p \<in> set (positions m). p < length (data m)"
    and rev: "\<forall>i < length (data m). used (data m ! i) \<longrightarrow>
        rev_pos (data m ! i) < length (positions m) \<and>
        positions m ! rev_pos (data m ! i) = i"
    by (auto simp: positions_ok_def)
  have "rev_pos (data m' ! i) < length (positions m') \<and>
      positions m' ! rev_pos (data m' ! i) = i"
    if "i < length (data m')" and "used (data m' ! i)" for i
  proof (cases "i = pos")
    case True
    with pos show ?thesis by (simp add: m')
  next
    case False
    with that have "i < length (data m)" "used (data m ! i)" by (simp_all add: m')
    with rev have "rev_pos (data m ! i) < length (positions m)"
      "positions m ! rev_pos (data m ! i) = i" by blast+
    with False show ?thesis by (simp add: m' nth_append)
  qed
  with len rng pos show ?thesis
    unfolding positions_ok_def by (auto simp: m')
qed

lemma link_fields:
  "i < length d \<Longrightarrow>
     used (d[p := (d ! p)\<lparr>next := nf\<rparr>] ! i) = used (d ! i) \<and>
     deleted (d[p := (d ! p)\<lparr>next := nf\<rparr>] ! i) = deleted (d ! i) \<and>
     rev_pos (d[p := (d ! p)\<lparr>next := nf\<rparr>] ! i) = rev_pos (d ! i) \<and>
     value (d[p := (d ! p)\<lparr>next := nf\<rparr>] ! i) = value (d ! i)"
  by (cases "i = p") simp_all

lemma positions_ok_link:
  "positions_ok m \<Longrightarrow>
   positions_ok (m\<lparr>start_pos := nf, data := (data m)[pos2 := (data m ! pos2)\<lparr>next := nf\<rparr>]\<rparr>)"
  unfolding positions_ok_def by (auto simp: link_fields)

lemma Data_init_unused: "\<not> used Data_init"
  by (simp add: Data_init_def)

lemma positions_ok_reset:
  "positions_ok ((Rehash_reset m t)\<lparr>values := [], positions := []\<rparr>)"
  unfolding positions_ok_def by (simp add: Rehash_reset_def Let_def Data_init_unused)

lemma positions_ok_reset_empty:
  "values m = [] \<longrightarrow> positions m = [] \<Longrightarrow> values m = [] \<Longrightarrow> positions_ok (Rehash_reset m t)"
  unfolding positions_ok_def by (simp add: Rehash_reset_def Let_def Data_init_unused)

lemma positions_ok_weaken: "positions_ok m \<Longrightarrow> values m = [] \<longrightarrow> positions m = []"
  unfolding positions_ok_def by auto

lemma positions_ok_Insert_Rehash:
  "(\<forall>(m :: ('k, 'v) HashMap) x pos m' p.
      positions_ok m \<longrightarrow> Insert n m x pos = Some (m', p) \<longrightarrow> positions_ok m') \<and>
   (\<forall>(m :: ('k, 'v) HashMap) t m'.
      (values m = [] \<longrightarrow> positions m = []) \<longrightarrow> Rehash n m t = Some m' \<longrightarrow> positions_ok m') \<and>
   (\<forall>(m :: ('k, 'v) HashMap) xs m'.
      positions_ok m \<longrightarrow> Insert_all n m xs = Some m' \<longrightarrow> positions_ok m')"
  by (rule Insert_Rehash_invariant
      [where I = positions_ok and ?I0.0 = "\<lambda>m. values m = [] \<longrightarrow> positions m = []"])
     (auto intro: positions_ok_place positions_ok_link positions_ok_reset
        positions_ok_reset_empty dest: positions_ok_weaken)

lemma positions_ok_Insert:
  "positions_ok m \<Longrightarrow> Insert n m x pos = Some (m', p) \<Longrightarrow> positions_ok m'"
  using positions_ok_Insert_Rehash by blast

lemma positions_ok_Rehash:
  "values m = [] \<longrightarrow> positions m = [] \<Longrightarrow> Rehash n m t = Some m' \<Longrightarrow> positions_ok m'"
  using positions_ok_Insert_Rehash by blast

lemma positions_ok_Insert_all:
  "positions_ok m \<Longrightarrow> Insert_all n m xs = Some m' \<Longrightarrow> positions_ok m'"
  using positions_ok_Insert_Rehash by blast

lemma positions_ok_erase:
  assumes ok: "positions_ok m" and er: "erase m key = Some m'"
  shows "positions_ok m'"
proof (cases "Find m key (bucket m key)")
  case None
  with er show ?thesis by (simp add: erase_def)
next
  case (Some r)
  show ?thesis
  proof (cases "r = NONE")
    case True
    with Some er ok show ?thesis by (simp add: erase_def)
  next
    case False
    define ps where "ps = positions m"
    define n where "n = length ps"
    define l where "l = last ps"
    define q where "q = rev_pos (data m ! r)"
    define d1 where "d1 = (data m)[l := (data m ! l)\<lparr>rev_pos := q\<rparr>]"
    from Find_Some [OF Some] False have r: "r < length (data m)" and ur: "used (data m ! r)"
      by blast+
    from ok have len: "length ps = length (values m)"
      and rng: "\<forall>p \<in> set ps. p < length (data m)"
      and rev: "\<forall>i < length (data m). used (data m ! i) \<longrightarrow>
          rev_pos (data m ! i) < n \<and> ps ! rev_pos (data m ! i) = i"
      by (auto simp: positions_ok_def ps_def n_def)
    from rev r ur have q: "q < n" and psq: "ps ! q = r" by (auto simp: q_def)
    then have ne: "ps \<noteq> []" by (auto simp: n_def)
    then have l_nth: "l = ps ! (n - 1)" by (simp add: l_def n_def last_conv_nth)
    from ne rng have l: "l < length (data m)" by (simp add: l_def)
    have q1: "rev_pos (d1 ! r) = q"
      using r l by (cases "l = r") (simp_all add: d1_def q_def)
    from er Some False r ne l q q1 obtain a where
      a: "a \<in> fst ` set (values m)" and
      m': "m' = m\<lparr>positions := butlast (ps[q := l, n - 1 := ps ! q]),
          values := list_erase a (values m),
          data := d1[r := (d1 ! r)\<lparr>value := Singular, used := False, deleted := True\<rparr>],
          element_count := u64 (element_count m + 18446744073709551615)\<rparr>"
      by (auto simp: erase_def Let_def ps_def [symmetric] l_def [symmetric]
          q_def [symmetric] d1_def [symmetric] n_def [symmetric]
          split: if_splits iterator.splits)
    have n0: "0 < n" using q by simp
    have lenp: "length (positions m') = n - 1" by (simp add: m' n_def)
    have lend: "length (data m') = length (data m)" by (simp add: m' d1_def)
    have c1: "length (positions m') = length (values m')"
      using list_erase_length [OF a] len by (simp add: m' n_def)
    have "set (butlast (ps[q := l, n - 1 := ps ! q])) \<subseteq> set ps"
    proof
      fix p assume "p \<in> set (butlast (ps[q := l, n - 1 := ps ! q]))"
      then have "p \<in> set (ps[q := l, n - 1 := ps ! q])" by (rule in_set_butlastD)
      then have "p \<in> insert (ps ! q) (set (ps[q := l]))"
        using set_update_subset_insert [of "ps[q := l]" "n - 1" "ps ! q"] by blast
      then have "p \<in> insert (ps ! q) (insert l (set ps))"
        using set_update_subset_insert [of ps q l] by blast
      moreover have "ps ! q \<in> set ps" using q by (simp add: n_def)
      moreover have "l \<in> set ps" using ne by (simp add: l_def)
      ultimately show "p \<in> set ps" by auto
    qed
    with rng have c2: "\<forall>p \<in> set (positions m'). p < length (data m')"
      by (auto simp: m' d1_def)
    have c3: "rev_pos (data m' ! i) < length (positions m') \<and>
        positions m' ! rev_pos (data m' ! i) = i"
      if i: "i < length (data m')" and ui: "used (data m' ! i)" for i
    proof -
      from i have i': "i < length (data m)" by (simp add: lend)
      from ui i' have ir: "i \<noteq> r" by (auto simp: m' d1_def)
      with ui i' have ui': "used (data m ! i)"
        by (cases "i = l") (simp_all add: m' d1_def)
      with rev i' have qi: "rev_pos (data m ! i) < n" and psi: "ps ! rev_pos (data m ! i) = i"
        by blast+
      show ?thesis
      proof (cases "i = l")
        case True
        with ir have "q \<noteq> n - 1" using psq l_nth by auto
        with q have q': "q < n - 1" by simp
        from True ir i' have "rev_pos (data m' ! i) = q" by (simp add: m' d1_def)
        moreover from q' have "butlast (ps[q := l, n - 1 := ps ! q]) ! q = l"
          by (simp add: nth_butlast n_def)
        ultimately show ?thesis using q' True by (simp add: lenp) (simp add: m')
      next
        case False
        with ir i' have e: "rev_pos (data m' ! i) = rev_pos (data m ! i)"
          by (simp add: m' d1_def)
        from False psi l_nth have "rev_pos (data m ! i) \<noteq> n - 1" by auto
        with qi have qi': "rev_pos (data m ! i) < n - 1" by simp
        from ir psi psq have "rev_pos (data m ! i) \<noteq> q" by auto
        with qi' have "butlast (ps[q := l, n - 1 := ps ! q]) ! rev_pos (data m ! i)
            = ps ! rev_pos (data m ! i)"
          by (simp add: nth_butlast n_def)
        with psi qi' e show ?thesis by (simp add: lenp) (simp add: m')
      qed
    qed
    from c1 c2 c3 show ?thesis unfolding positions_ok_def by blast
  qed
qed

lemma clear_slots_result:
  "\<forall>p \<in> set ps. p < length d \<Longrightarrow>
   \<exists>d'. clear_slots d ps = Some d' \<and> length d' = length d \<and>
     (\<forall>i < length d. d' ! i = (if i \<in> set ps then Data_init else d ! i))"
proof (induction ps arbitrary: d)
  case Nil
  then show ?case by simp
next
  case (Cons p ps)
  from Cons.prems have p: "p < length d" and
    "\<forall>p' \<in> set ps. p' < length (d[p := Data_init])" by simp_all
  from Cons.IH [OF this(2)] obtain d' where
    d': "clear_slots (d[p := Data_init]) ps = Some d'" "length d' = length d"
    "\<forall>i < length d. d' ! i = (if i \<in> set ps then Data_init else d[p := Data_init] ! i)"
    by auto
  from d'(3) have "\<forall>i < length d. d' ! i = (if i \<in> set (p # ps) then Data_init else d ! i)"
    by (auto simp: nth_list_update)
  with d'(1,2) p show ?case by simp
qed

lemma positions_ok_clear:
  assumes "positions_ok m"
  shows "\<exists>m'. clear m = Some m' \<and> positions_ok m' \<and> values m' = [] \<and> positions m' = [] \<and>
    size_hm m' = 0 \<and> start_pos m' = last_index m \<and> length (data m') = length (data m) \<and>
    (\<forall>i < length (data m). data m' ! i =
        (if i \<in> set (positions m) then Data_init else data m ! i)) \<and>
    (\<forall>i < length (data m'). \<not> used (data m' ! i))"
proof -
  from assms have rng: "\<forall>p \<in> set (positions m). p < length (data m)"
    unfolding positions_ok_def by blast
  have rev: "\<forall>i < length (data m). used (data m ! i) \<longrightarrow> i \<in> set (positions m)"
  proof (intro allI impI)
    fix i assume "i < length (data m)" "used (data m ! i)"
    with assms have "rev_pos (data m ! i) < length (positions m)"
      "positions m ! rev_pos (data m ! i) = i"
      unfolding positions_ok_def by blast+
    then show "i \<in> set (positions m)" by (metis nth_mem)
  qed
  from clear_slots_result [OF rng] obtain d' where
    d': "clear_slots (data m) (positions m) = Some d'" "length d' = length (data m)"
    "\<forall>i < length (data m). d' ! i = (if i \<in> set (positions m) then Data_init else data m ! i)"
    by blast
  from d'(2,3) rev have "\<forall>i < length d'. \<not> used (d' ! i)"
    by (auto simp: Data_init_unused)
  with d' show ?thesis
    by (auto simp: clear_def positions_ok_def size_hm_def)
qed


section \<open>Invariants of the reachable states\<close>

lemma push_back_all_positions: "positions (push_back_all m xs) = positions m"
  by (induction xs arbitrary: m) simp_all

lemma HashMap_default_eq: "HashMap_default hf = Some (Rehash_reset (blank hf) 0)"
  by (simp add: HashMap_default_def blank_def)

lemma default_positions: "positions (Rehash_reset (blank hf) 0) = []"
  by (simp add: Rehash_reset_def blank_def Let_def)

lemma assign_start:
  "this\<lparr>values := [], positions := [], element_count := 0, primary_size := p,
      cellar_size := c, start_pos := s, hasher := h, data := d\<rparr> =
   \<lparr>values = [], positions = [], data = d, element_count = 0, primary_size = p,
    cellar_size = c, start_pos = s, hasher = h, fresh = fresh this\<rparr>"
  by (cases this) simp

lemma reachable_invariant:
  assumes ins: "\<And>n m x m' p. I m \<Longrightarrow>
      Insert n m x (bucket m (fst x)) = Some (m', p) \<Longrightarrow> I m'"
    and all: "\<And>n m xs m'. I m \<Longrightarrow> Insert_all n m xs = Some m' \<Longrightarrow> I m'"
    and reh: "\<And>n m t m'. positions m = [] \<Longrightarrow> Rehash n m t = Some m' \<Longrightarrow> I m'"
    and er: "\<And>m key m'. I m \<Longrightarrow> erase m key = Some m' \<Longrightarrow> I m'"
    and cl: "\<And>m m'. I m \<Longrightarrow> clear m = Some m' \<Longrightarrow> I m'"
    and cp: "\<And>other h fr. I other \<Longrightarrow>
      I \<lparr>values = [], positions = [],
         data = replicate (u64 (primary_size other + cellar_size other)) Data_init,
         element_count = 0, primary_size = primary_size other,
         cellar_size = cellar_size other,
         start_pos = u64 (primary_size other + cellar_size other + 18446744073709551615),
         hasher = h, fresh = fr\<rparr>"
  shows "reachable m \<Longrightarrow> I m"
proof (induction rule: reachable.induct)
  case (by_default hf m)
  then have "Rehash 0 (blank hf) 0 = Some m" by (simp add: HashMap_default_def)
  moreover have "positions (blank hf) = []" by (simp add: blank_def)
  ultimately show ?case by (rule reh [rotated])
next
  case (by_range n xs hf m)
  then have "Rehash n (push_back_all (Rehash_reset (blank hf) 0) xs)
      (u64 (2 * length (values (push_back_all (Rehash_reset (blank hf) 0) xs)))) = Some m"
    by (simp add: HashMap_range_def HashMap_default_eq Let_def)
  moreover have "positions (push_back_all (Rehash_reset (blank hf) 0) xs) = []"
    by (simp add: push_back_all_positions default_positions)
  ultimately show ?case by (rule reh [rotated])
next
  case (by_initializer_list n xs hf m)
  define ys where "ys = map (\<lambda>i. xs ! i) [0 ..< length xs]"
  from by_initializer_list have "Rehash n (push_back_all (Rehash_reset (blank hf) 0) ys)
      (u64 (2 * length (values (push_back_all (Rehash_reset (blank hf) 0) ys)))) = Some m"
    by (simp add: HashMap_initializer_list_def HashMap_default_eq Let_def ys_def)
  moreover have "positions (push_back_all (Rehash_reset (blank hf) 0) ys) = []"
    by (simp add: push_back_all_positions default_positions)
  ultimately show ?case by (rule reh [rotated])
next
  case (by_copy other n m)
  from by_copy.hyps(2) cp [OF by_copy.IH] show ?case
    unfolding HashMap_copy_def by (rule all [rotated])
next
  case (by_assign this other n m)
  show ?case
  proof (cases "map snd (values this) = map snd (values other)")
    case True
    with by_assign show ?thesis by (simp add: operator_assign_def)
  next
    case False
    with by_assign.hyps(3) have ia: "Insert_all n
        \<lparr>values = [], positions = [],
         data = replicate (u64 (primary_size other + cellar_size other)) Data_init,
         element_count = 0, primary_size = primary_size other,
         cellar_size = cellar_size other,
         start_pos = u64 (primary_size other + cellar_size other + 18446744073709551615),
         hasher = hasher other, fresh = fresh this\<rparr>
        (map snd (values other)) = Some m"
      by (simp add: operator_assign_def assign_start)
    from cp [OF by_assign.IH(2)] ia show ?thesis by (rule all)
  qed
next
  case (by_clear m m')
  then show ?case using cl by blast
next
  case (by_insert m n x m')
  show ?case
  proof (cases "Find m (fst x) (bucket m (fst x)) = Some NONE")
    case True
    with by_insert.hyps(2) obtain p where
      "Insert n m x (bucket m (fst x)) = Some (m', p)"
      by (auto simp: insert_hm_def Let_def)
    with by_insert.IH show ?thesis by (rule ins)
  next
    case False
    with by_insert.hyps(2) have "m' = m"
      by (auto simp: insert_hm_def Let_def split: option.splits if_splits)
    with by_insert.IH show ?thesis by simp
  qed
next
  case (by_erase m key m')
  then show ?case using er by blast
next
  case (by_index m n key dflt m' r)
  show ?case
  proof (cases "Find m key (bucket m key) = Some NONE")
    case True
    with by_index.hyps(2) obtain p where
      "Insert n m (key, dflt) (bucket m (fst (key, dflt))) = Some (m', p)"
      by (auto simp: operator_index_def Let_def split: option.splits if_splits)
    with by_index.IH show ?thesis by (rule ins)
  next
    case False
    with by_index.hyps(2) have "m' = m"
      by (auto simp: operator_index_def Let_def split: option.splits if_splits)
    with by_index.IH show ?thesis by simp
  qed
qed


lemma reachable_positions_ok: "reachable m \<Longrightarrow> positions_ok m"
proof (rule reachable_invariant [where I = positions_ok])
  show "positions_ok m'" if "positions_ok m" "clear m = Some m'"
    for m m' :: "('a, 'b) HashMap"
    using positions_ok_clear [OF that(1)] that(2) by auto
  show "positions_ok
      \<lparr>values = [], positions = [],
       data = replicate (u64 (primary_size other + cellar_size other)) Data_init,
       element_count = 0, primary_size = primary_size other,
       cellar_size = cellar_size other,
       start_pos = u64 (primary_size other + cellar_size other + 18446744073709551615),
       hasher = h, fresh = fr\<rparr>"
    for other :: "('a, 'b) HashMap" and h fr
    unfolding positions_ok_def by (simp add: Data_init_unused)
qed (auto intro: positions_ok_Insert positions_ok_Insert_all positions_ok_Rehash
      positions_ok_erase)

text \<open>The primary size is always a value of \<^verbatim>\<open>NextPrime\<close>.\<close>

lemma PRIMES_tail_ge_3: "\<forall>p \<in> set (tl PRIMES). 3 \<le> p"
  by (simp add: PRIMES_def)

lemma NextPrime_table: "NextPrime v \<in> set PRIMES \<and> 3 \<le> NextPrime v"
proof -
  have ne: "tl PRIMES \<noteq> []"
    by (simp add: PRIMES_def)
  have "NextPrime v \<in> set (tl PRIMES)"
  proof (cases "List.find (\<lambda>p. v \<le> p) (butlast (tl PRIMES))")
    case None
    then have "NextPrime v = last (tl PRIMES)"
      using ne by (simp add: NextPrime_def last_tl)
    with ne show ?thesis by simp
  next
    case (Some p)
    then have "p \<in> set (butlast (tl PRIMES))"
      by (auto simp: find_Some_iff)
    then have "p \<in> set (tl PRIMES)" by (rule in_set_butlastD)
    with Some show ?thesis by (simp add: NextPrime_def)
  qed
  moreover have "set (tl xs) \<subseteq> set xs" for xs :: "nat list"
    by (cases xs) auto
  ultimately show ?thesis
    using PRIMES_tail_ge_3 by blast
qed

lemma erase_primary_size: "erase m key = Some m' \<Longrightarrow> primary_size m' = primary_size m"
  by (auto simp: erase_def Let_def split: option.splits if_splits iterator.splits)

lemma clear_primary_size: "clear m = Some m' \<Longrightarrow> primary_size m' = primary_size m"
  by (auto simp: clear_def split: option.splits)

lemma NextPrime_Insert_Rehash:
  "(\<forall>(m :: ('k, 'v) HashMap) x pos m' p.
      (\<exists>v. primary_size m = NextPrime v) \<longrightarrow> Insert n m x pos = Some (m', p) \<longrightarrow>
      (\<exists>v. primary_size m' = NextPrime v)) \<and>
   (\<forall>(m :: ('k, 'v) HashMap) t m'.
      True \<longrightarrow> Rehash n m t = Some m' \<longrightarrow> (\<exists>v. primary_size m' = NextPrime v)) \<and>
   (\<forall>(m :: ('k, 'v) HashMap) xs m'.
      (\<exists>v. primary_size m = NextPrime v) \<longrightarrow> Insert_all n m xs = Some m' \<longrightarrow>
      (\<exists>v. primary_size m' = NextPrime v))"
  by (rule Insert_Rehash_invariant
      [where I = "\<lambda>m. \<exists>v. primary_size m = NextPrime v" and ?I0.0 = "\<lambda>m. True"])
     (auto simp: Insert_place_def Rehash_reset_def Let_def split: if_splits)

lemma reachable_NextPrime: "reachable m \<Longrightarrow> \<exists>v. primary_size m = NextPrime v"
proof (rule reachable_invariant [where I = "\<lambda>m. \<exists>v. primary_size m = NextPrime v"])
  show "\<exists>v. primary_size m' = NextPrime v"
    if "\<exists>v. primary_size m = NextPrime v" "Insert n m x (bucket m (fst x)) = Some (m', p)"
    for n and m :: "('a, 'b) HashMap" and x m' p
    using NextPrime_Insert_Rehash that by blast
  show "\<exists>v. primary_size m' = NextPrime v"
    if "\<exists>v. primary_size m = NextPrime v" "Insert_all n m xs = Some m'"
    for n and m :: "('a, 'b) HashMap" and xs m'
    using NextPrime_Insert_Rehash that by blast
  show "\<exists>v. primary_size m' = NextPrime v"
    if "positions m = []" "Rehash n m t = Some m'"
    for n and m :: "('a, 'b) HashMap" and t m'
    using NextPrime_Insert_Rehash that by blast
  show "\<exists>v. primary_size m' = NextPrime v"
    if "\<exists>v. primary_size m = NextPrime v" "erase m key = Some m'"
    for m :: "('a, 'b) HashMap" and key m'
    using erase_primary_size [OF that(2)] that(1) by simp
  show "\<exists>v. primary_size m' = NextPrime v"
    if "\<exists>v. primary_size m = NextPrime v" "clear m = Some m'"
    for m m' :: "('a, 'b) HashMap"
    using clear_primary_size [OF that(2)] that(1) by simp
qed auto


section \<open>The concrete states are reachable\<close>

lemma reachable_cycle_0: "reachable cycle_0"
  using default_cycle_0 by (rule by_default)

lemma reachable_cycle_1: "reachable cycle_1"
  using reachable_cycle_0 cycle_step_1 by (rule by_insert)

lemma reachable_cycle_2: "reachable cycle_2"
  using reachable_cycle_1 cycle_step_2 by (rule by_insert)

lemma reachable_cycle_3: "reachable cycle_3"
  using reachable_cycle_2 cycle_step_3 by (rule by_insert)

lemma reachable_cycle_4: "reachable cycle_4"
  using reachable_cycle_3 cycle_step_4 by (rule by_insert)

lemma reachable_cycle_5: "reachable cycle_5"
  using reachable_cycle_4 cycle_step_5 by (rule by_erase)

lemma reachable_cycle_6: "reachable cycle_6"
  using reachable_cycle_5 cycle_step_6 by (rule by_erase)

section \<open>Access with \<^verbatim>\<open>at\<close>\<close>

text \<open>
  Claim C2. \<^verbatim>\<open>at(k)\<close> fails with \<open>KeyNotFound\<close> exactly when \<^verbatim>\<open>find(k)\<close> returns the end
  sentinel; when \<^verbatim>\<open>find(k)\<close> returns an iterator to an entry, the entry has key \<open>k\<close> and
  \<^verbatim>\<open>at(k)\<close> returns its value; and \<^verbatim>\<open>at(k)\<close> returns nothing exactly when \<^verbatim>\<open>find(k)\<close> returns
  nothing. No other operation of the model has an error among its results: \<^verbatim>\<open>at\<close> holds the
  only \<^verbatim>\<open>throw\<close> of the source.
\<close>

theorem at_fails_iff_find_returns_end:
  "(at m key = Some (Inl KeyNotFound) \<longleftrightarrow> find_hm m key = Some End) \<and>
   (find_hm m key = Some it \<and> it \<noteq> End \<longrightarrow>
      (\<exists>v. deref m it = Some (key, v) \<and> at m key = Some (Inr v))) \<and>
   (at m key = None \<longleftrightarrow> find_hm m key = None)"
proof -
  have found: "\<exists>v. deref m it = Some (key, v) \<and> at m key = Some (Inr v)"
    if "find_hm m key = Some it" "it \<noteq> End" for it
  proof -
    from that obtain r where r: "Find m key (bucket m key) = Some r" "r \<noteq> NONE"
      "it = value (data m ! r)"
      by (auto simp: find_hm_def split: option.splits if_splits)
    with Find_Some [OF r(1)] obtain kv where "deref m it = Some kv" "fst kv = key"
      by auto
    with that show ?thesis by (cases kv) (auto simp: at_def)
  qed
  have "at m key = Some (Inl KeyNotFound) \<longleftrightarrow> find_hm m key = Some End"
    by (auto simp: at_def split: option.splits if_splits)
  moreover have "at m key = None \<longleftrightarrow> find_hm m key = None"
  proof
    assume n: "at m key = None"
    show "find_hm m key = None"
    proof (cases "find_hm m key")
      case None
      then show ?thesis .
    next
      case (Some it)
      with n have "it \<noteq> End" by (auto simp: at_def)
      from found [OF Some this] n show ?thesis by simp
    qed
  next
    assume "find_hm m key = None"
    then show "at m key = None" by (simp add: at_def)
  qed
  ultimately show ?thesis using found by blast
qed

theorem at_fails_iff_find_returns_end_witness:
  "find_hm cycle_2 7 = Some (Node 1) \<and> at cycle_2 7 = Some (Inr 7) \<and>
   find_hm cycle_2 14 = Some End \<and> at cycle_2 14 = Some (Inl KeyNotFound) \<and>
   find_hm cycle_10 13 = None \<and> at cycle_10 13 = None"
proof -
  have f7: "find_hm cycle_2 7 = Some (Node 1)"
    by (simp add: find_hm_def evals cycle_2_def)
  have f14: "find_hm cycle_2 14 = Some End"
    by (simp add: find_hm_def evals cycle_2_def)
  have f13: "find_hm cycle_10 13 = None"
    by (simp add: find_hm_def cycle_10_bucket cycle_10_Find)
  have d: "deref cycle_2 (Node 1) = Some (7, 7)"
    by (simp add: deref_def cycle_2_def)
  show ?thesis
    using at_fails_iff_find_returns_end [of cycle_2 7 "Node 1"]
      at_fails_iff_find_returns_end [of cycle_2 14 End]
      at_fails_iff_find_returns_end [of cycle_10 13 End] f7 f14 f13 d
    by simp
qed

section \<open>The search for a slot\<close>

lemma Insert_scan_first_unused:
  "Insert_scan m s d = Some r \<Longrightarrow>
     \<forall>j. r = Some j \<longrightarrow>
       (\<exists>t. j = (scan_prev m ^^ t) s \<and> j < length (data m) \<and> \<not> used (data m ! j) \<and>
          (\<forall>u < t. (scan_prev m ^^ u) s < length (data m) \<and>
             used (data m ! ((scan_prev m ^^ u) s))))"
proof (induction rule: Insert_scan.raw_induct [rotated 1, consumes 1])
  case (1 scan' m s d r)
  show ?case
  proof (intro allI impI)
    fix j
    assume rj: "r = Some j"
    show "\<exists>t. j = (scan_prev m ^^ t) s \<and> j < length (data m) \<and> \<not> used (data m ! j) \<and>
          (\<forall>u < t. (scan_prev m ^^ u) s < length (data m) \<and>
             used (data m ! ((scan_prev m ^^ u) s)))"
    proof (cases "used (data m ! s)")
      case False
      with "1.hyps" rj have "j = s" "s < length (data m)"
        by (auto split: if_splits)
      with False have "j = (scan_prev m ^^ 0) s \<and> j < length (data m) \<and>
         \<not> used (data m ! j) \<and>
         (\<forall>u < 0. (scan_prev m ^^ u) s < length (data m) \<and>
            used (data m ! ((scan_prev m ^^ u) s)))" by simp
      then show ?thesis by blast
    next
      case True
      with "1.hyps" rj have s: "s < length (data m)"
        and rec: "scan' m (scan_prev m s) (u64 (d + 1)) = Some r"
        by (auto simp: scan_prev_def split: if_splits)
      from "1.IH" [OF rec] rj obtain t where
        t: "j = (scan_prev m ^^ t) (scan_prev m s)" "j < length (data m)"
          "\<not> used (data m ! j)"
          "\<forall>u < t. (scan_prev m ^^ u) (scan_prev m s) < length (data m) \<and>
            used (data m ! ((scan_prev m ^^ u) (scan_prev m s)))"
        by blast
      have "(scan_prev m ^^ u) s < length (data m) \<and> used (data m ! ((scan_prev m ^^ u) s))"
        if "u < Suc t" for u
      proof (cases u)
        case 0
        with s True show ?thesis by simp
      next
        case (Suc u')
        with that t(4) show ?thesis by (simp add: funpow_swap1)
      qed
      with t(1-3) have "j = (scan_prev m ^^ Suc t) s \<and> j < length (data m) \<and>
         \<not> used (data m ! j) \<and>
         (\<forall>u < Suc t. (scan_prev m ^^ u) s < length (data m) \<and>
            used (data m ! ((scan_prev m ^^ u) s)))"
        by (simp add: funpow_swap1)
      then show ?thesis by blast
    qed
  qed
qed











section \<open>\<^verbatim>\<open>clear\<close>\<close>

text \<open>
  In every reachable state \<^verbatim>\<open>clear\<close> returns; afterwards no slot is in use, every slot that
  was in use is as \<^verbatim>\<open>Data()\<close> makes it, the entry list and the position index are empty,
  \<^verbatim>\<open>size()\<close> is 0 and \<^verbatim>\<open>start_pos_\<close> is the last index of the table.
\<close>

lemma clear_resets_listed_slots:
  "reachable m \<Longrightarrow>
     \<exists>m'. clear m = Some m' \<and> values m' = [] \<and> positions m' = [] \<and> size_hm m' = 0 \<and>
       empty_hm m' \<and> start_pos m' = last_index m \<and> length (data m') = length (data m) \<and>
       (\<forall>i < length (data m). used (data m ! i) \<longrightarrow> data m' ! i = Data_init) \<and>
       (\<forall>i < length (data m'). \<not> used (data m' ! i))"
proof -
  assume "reachable m"
  then have ok: "positions_ok m" by (rule reachable_positions_ok)
  from positions_ok_clear [OF ok] obtain m' where
    m': "clear m = Some m'" "values m' = []" "positions m' = []" "size_hm m' = 0"
      "start_pos m' = last_index m" "length (data m') = length (data m)"
      "\<forall>i < length (data m). data m' ! i =
          (if i \<in> set (positions m) then Data_init else data m ! i)"
      "\<forall>i < length (data m'). \<not> used (data m' ! i)"
    by blast
  have "data m' ! i = Data_init" if "i < length (data m)" "used (data m ! i)" for i
  proof -
    from ok that have "rev_pos (data m ! i) < length (positions m)"
      "positions m ! rev_pos (data m ! i) = i"
      unfolding positions_ok_def by blast+
    then have "i \<in> set (positions m)" by (metis nth_mem)
    with m'(7) that(1) show ?thesis by simp
  qed
  with m' show ?thesis by (auto simp: empty_hm_def)
qed

lemma clear_run:
  "apply_ops (Suc (Suc (Suc 0))) cycle_0 (take 6 cycle_ops @ [Op_clear]) = Some cleared_6"
  by (simp add: cycle_ops_def cycle_step_1 cycle_step_2 cycle_step_3 cycle_step_4
      cycle_step_5 cycle_step_6 clear_cycle_6)

lemma refill_run: "apply_ops (Suc (Suc (Suc 0))) cleared_6 refill_ops = Some refill_4"
  by (simp add: refill_ops_def refill_step_1 refill_step_2 refill_step_3 refill_step_4)

lemma fresh_run: "apply_ops (Suc (Suc (Suc 0))) cycle_0 refill_ops = Some fresh_4"
  by (simp add: refill_ops_def fresh_step_1 fresh_step_2 fresh_step_3 fresh_step_4)

lemma refill_4_Find_not_Some: "Find refill_4 20 pos = Some r \<Longrightarrow> pos \<noteq> 6 \<and> pos \<noteq> 7"
proof (induction refill_4 "20 :: nat" pos r rule: Find.raw_induct [rotated 1, consumes 1])
  case (1 Find' pos r)
  show ?case
  proof (rule ccontr)
    assume "\<not> (pos \<noteq> 6 \<and> pos \<noteq> 7)"
    then consider "pos = 6" | "pos = 7" by blast
    then show False
    proof cases
      case 1
      with "1.hyps"(2) have "Find' refill_4 20 7 = Some r"
        by (simp add: refill_4_def deref_def NONE_def)
      with "1.hyps"(1) show False by blast
    next
      case 2
      with "1.hyps"(2) have "Find' refill_4 20 6 = Some r"
        by (simp add: refill_4_def deref_def NONE_def)
      with "1.hyps"(1) show False by blast
    qed
  qed
qed

lemma refill_4_Find: "Find refill_4 20 6 = None"
  using refill_4_Find_not_Some [of 6] by (cases "Find refill_4 20 6") auto

lemma refill_4_bucket: "bucket refill_4 20 = 6"
  by (simp add: bucket_def refill_4_def identity_hash_def)

lemma fresh_4_find: "find_hm fresh_4 20 = Some End"
  by (simp add: find_hm_def evals fresh_4_def)

text \<open>
  Claim C7, at the input where the code leaves it. After the first six operations of
  \<open>cycle_ops\<close> slots 6 and 7 are tombstones and slot 7 links to slot 6. \<^verbatim>\<open>erase\<close> has taken
  both out of \<^verbatim>\<open>positions_\<close>, the only slots that \<^verbatim>\<open>clear\<close> resets, so after \<^verbatim>\<open>clear\<close> they
  are tombstones still and the link is still there; \<^verbatim>\<open>Rehash\<close> at the same state resets
  every slot. The cleared map is not an empty one: after the insertions \<open>refill_ops\<close> slots
  6 and 7, in use, link to each other and \<^verbatim>\<open>find(20)\<close> does not return, while the same
  insertions into a default-constructed map leave \<^verbatim>\<open>find(20)\<close> with the end sentinel, which
  is also the answer of the reference map.
\<close>

theorem clear_leaves_tombstones:
  "HashMap_default identity_hash = Some cycle_0 \<and>
   apply_ops (Suc (Suc (Suc 0))) cycle_0 (take 6 cycle_ops @ [Op_clear]) = Some cleared_6 \<and>
   iterate cleared_6 = [] \<and> positions cleared_6 = [] \<and> size_hm cleared_6 = 0 \<and>
   deleted (data cleared_6 ! 6) \<and>
   deleted (data cleared_6 ! 7) \<and> next (data cleared_6 ! 7) = 6 \<and>
   data (Rehash_reset cycle_6 6) = replicate 9 Data_init \<and>
   apply_ops (Suc (Suc (Suc 0))) cleared_6 refill_ops = Some refill_4 \<and>
   used (data refill_4 ! 6) \<and> next (data refill_4 ! 6) = 7 \<and>
   used (data refill_4 ! 7) \<and> next (data refill_4 ! 7) = 6 \<and>
   find_hm refill_4 20 = None \<and>
   reference_ops Map.empty (take 6 cycle_ops @ [Op_clear] @ refill_ops) 20 = None \<and>
   apply_ops (Suc (Suc (Suc 0))) cycle_0 refill_ops = Some fresh_4 \<and>
   find_hm fresh_4 20 = Some End"
proof (intro conjI)
  show "HashMap_default identity_hash = Some cycle_0" by (rule default_cycle_0)
  show "apply_ops (Suc (Suc (Suc 0))) cycle_0 (take 6 cycle_ops @ [Op_clear]) = Some cleared_6"
    by (rule clear_run)
  show "apply_ops (Suc (Suc (Suc 0))) cleared_6 refill_ops = Some refill_4"
    by (rule refill_run)
  show "apply_ops (Suc (Suc (Suc 0))) cycle_0 refill_ops = Some fresh_4"
    by (rule fresh_run)
  show "find_hm refill_4 20 = None"
    by (simp add: find_hm_def refill_4_bucket refill_4_Find)
  show "find_hm fresh_4 20 = Some End" by (rule fresh_4_find)
  show "reference_ops Map.empty (take 6 cycle_ops @ [Op_clear] @ refill_ops) 20 = None"
    by (simp add: cycle_ops_def refill_ops_def)
  show "data (Rehash_reset cycle_6 6) = replicate 9 Data_init"
    by (simp add: evals cycle_6_def)
qed (simp_all add: cleared_6_def refill_4_def iterate_def size_hm_def)

section \<open>Copy assignment\<close>





section \<open>The primary size\<close>

text \<open>
  Claim C10. A default-constructed map has primary size 3 and cellar size 1. In every
  reachable state the primary size is an entry of the table \<^verbatim>\<open>PRIMES\<close> and at least 2 (in
  fact at least 3), so \<^verbatim>\<open>hasher_(key) % primary_size_\<close> never divides by zero, and the bucket
  it gives lies inside the primary region.
\<close>

theorem primary_size_from_table_never_zero:
  "(\<exists>d. HashMap_default hf = Some d \<and> primary_size d = 3 \<and> cellar_size d = 1) \<and>
   (reachable m \<longrightarrow>
      primary_size m \<in> set PRIMES \<and> 2 \<le> primary_size m \<and> 3 \<le> primary_size m \<and>
      primary_size m \<noteq> 0 \<and> bucket m key < primary_size m)"
proof (intro conjI impI)
  show "\<exists>d. HashMap_default hf = Some d \<and> primary_size d = 3 \<and> cellar_size d = 1"
    by (simp add: HashMap_default_eq Rehash_reset_def Let_def NextPrime_0 cellar_of_3)
next
  assume "reachable m"
  then obtain v where v: "primary_size m = NextPrime v"
    using reachable_NextPrime by blast
  with NextPrime_table [of v] show "primary_size m \<in> set PRIMES" "2 \<le> primary_size m"
    "3 \<le> primary_size m" "primary_size m \<noteq> 0" "bucket m key < primary_size m"
    by (simp_all add: bucket_def)
qed

theorem primary_size_from_table_never_zero_witness:
  "HashMap_default identity_hash = Some cycle_0 \<and> primary_size cycle_0 = 3 \<and>
   cellar_size cycle_0 = 1 \<and> reachable cycle_6 \<and> primary_size cycle_6 = 7 \<and>
   primary_size cycle_6 \<in> set PRIMES \<and> bucket cycle_6 13 = 6"
proof -
  have p0: "primary_size cycle_0 = 3" "cellar_size cycle_0 = 1"
    by (simp_all add: cycle_0_def)
  have p6: "primary_size cycle_6 = 7" "bucket cycle_6 13 = 6"
    by (simp_all add: cycle_6_def bucket_def identity_hash_def)
  show ?thesis
    using primary_size_from_table_never_zero [of identity_hash cycle_6 13]
      default_cycle_0 reachable_cycle_6 p0 p6
    by auto
qed


section \<open>Chains\<close>

lemma reaches_in_range: "reaches d p i \<Longrightarrow> p < length d \<and> i < length d"
  by (induction rule: reaches.induct) auto

lemma reaches_mono:
  assumes "reaches d p i" and "length d' = length d"
    and "\<forall>q < length d. used (d ! q) \<or> deleted (d ! q) \<longrightarrow>
      (used (d' ! q) \<or> deleted (d' ! q)) \<and>
      (next (d' ! q) = next (d ! q) \<or> length d \<le> next (d ! q))"
  shows "reaches d' p i"
  using assms
proof (induction rule: reaches.induct)
  case (here p)
  then show ?case by (simp add: reaches.here)
next
  case (step p i)
  from step.hyps(3) have "next (d ! p) < length d" by (auto dest: reaches_in_range)
  with step have "used (d' ! p) \<or> deleted (d' ! p)" "next (d' ! p) = next (d ! p)"
    by auto
  with step show ?case by (auto intro: reaches.step)
qed

lemma reaches_snoc:
  assumes "reaches d p q" and "used (d ! q) \<or> deleted (d ! q)"
    and "next (d ! q) < length d"
  shows "reaches d p (next (d ! q))"
  using assms
proof (induction rule: reaches.induct)
  case (here p)
  then show ?case by (auto intro: reaches.step reaches.here)
next
  case (step p i)
  then show ?case by (auto intro: reaches.step)
qed

lemma Insert_walk_reaches:
  "Insert_walk d p dist = Some r \<Longrightarrow>
     (\<forall>i < length d. \<not> used (d ! i) \<and> \<not> deleted (d ! i) \<longrightarrow> next (d ! i) = NONE) \<longrightarrow>
     reaches d p (fst r) \<and> (next (d ! fst r) = NONE \<or> deleted (d ! fst r))"
proof (induction rule: Insert_walk.raw_induct [rotated 1, consumes 1])
  case (1 walk' d p dist r)
  show ?case
  proof (intro impI)
    assume e: "\<forall>i < length d. \<not> used (d ! i) \<and> \<not> deleted (d ! i) \<longrightarrow> next (d ! i) = NONE"
    from "1.hyps" have p: "p < length d" by (auto split: if_splits)
    show "reaches d p (fst r) \<and> (next (d ! fst r) = NONE \<or> deleted (d ! fst r))"
    proof (cases "next (d ! p) \<noteq> NONE \<and> \<not> deleted (d ! p)")
      case True
      with "1.hyps" p have "walk' d (next (d ! p)) (u64 (dist + 1)) = Some r" by simp
      from "1.IH" [OF this] e have
        r: "reaches d (next (d ! p)) (fst r)" "next (d ! fst r) = NONE \<or> deleted (d ! fst r)"
        by blast+
      from True e p have "used (d ! p)" by blast
      with p r show ?thesis by (auto intro: reaches.step)
    next
      case False
      with "1.hyps" p have "r = (p, dist)" by (auto split: if_splits)
      with False p show ?thesis by (auto intro: reaches.here)
    qed
  qed
qed

lemma Find_finds:
  assumes r: "reaches (data m) p i" and u: "used (data m ! i)"
    and dr: "deref m (value (data m ! i)) = Some kv" and k: "fst kv = key"
    and len: "length (data m) \<le> NONE"
    and f: "Find m key p = Some r"
  shows "r \<noteq> NONE"
  using r u dr f
proof (induction rule: reaches.induct)
  case (here p)
  from here.prems(3) here.hyps here.prems(1,2) k len show ?case
    by (subst (asm) Find.simps) (auto split: if_splits)
next
  case (step p i)
  from step.prems(3) step.hyps(1,2) len have
    "r = p \<or> Find m key (next (data m ! p)) = Some r"
    by (subst (asm) Find.simps) (auto split: if_splits option.splits)
  then show ?case
  proof
    assume "r = p"
    with step.hyps(1) len show ?thesis by auto
  next
    assume "Find m key (next (data m ! p)) = Some r"
    with step.IH step.prems(1,2) show ?thesis by blast
  qed
qed


lemma chains_okD:
  assumes "chains_ok m"
  shows "length (data m) \<le> NONE"
    and "distinct (map fst (values m))"
    and "\<And>a. a \<in> fst ` set (values m) \<Longrightarrow> a < fresh m"
    and "\<And>i. i < length (data m) \<Longrightarrow> used (data m ! i) \<Longrightarrow> \<not> deleted (data m ! i)"
    and "\<And>i. i < length (data m) \<Longrightarrow> \<not> used (data m ! i) \<Longrightarrow> \<not> deleted (data m ! i) \<Longrightarrow>
          next (data m ! i) = NONE"
    and "\<And>i. i < length (data m) \<Longrightarrow> used (data m ! i) \<Longrightarrow>
          \<exists>a kv. value (data m ! i) = Node a \<and> map_of (values m) a = Some kv \<and>
            reaches (data m) (bucket m (fst kv)) i"
    and "\<And>a. a \<in> fst ` set (values m) \<Longrightarrow>
          \<exists>i < length (data m). used (data m ! i) \<and> value (data m ! i) = Node a"
    and "\<And>i j. i < length (data m) \<Longrightarrow> j < length (data m) \<Longrightarrow> used (data m ! i) \<Longrightarrow>
          used (data m ! j) \<Longrightarrow> value (data m ! i) = value (data m ! j) \<Longrightarrow> i = j"
  using assms unfolding chains_ok_def by blast+

lemma chains_ok_place:
  assumes ok: "chains_ok m" and ip: "Insert_place m x pos = Some (m', p)"
    and nu: "\<not> used (data m ! pos)" and rc: "reaches (data m) (bucket m (fst x)) pos"
  shows "chains_ok m'"
proof -
  define d' where "d' = (data m)[pos := (data m ! pos)
          \<lparr>value := Node (fresh m), used := True, deleted := False,
           rev_pos := length (positions m)\<rparr>]"
  from ip have pos: "pos < length (data m)"
    and m': "m' = m\<lparr>values := values m @ [(fresh m, x)], fresh := Suc (fresh m),
        data := d', positions := positions m @ [pos],
        element_count := u64 (element_count m + 1)\<rparr>"
    by (auto simp: Insert_place_def d'_def split: if_splits)
  note D = chains_okD [OF ok]
  have len: "length d' = length (data m)" by (simp add: d'_def)
  have b: "bucket m' k = bucket m k" for k by (simp add: m' bucket_def)
  have fr: "fresh m \<notin> fst ` set (values m)" using D(3) by blast
  have other: "d' ! i = data m ! i" if "i \<noteq> pos" for i
    using that by (simp add: d'_def)
  have atpos: "used (d' ! pos)" "\<not> deleted (d' ! pos)" "value (d' ! pos) = Node (fresh m)"
    "next (d' ! pos) = next (data m ! pos)"
    using pos by (simp_all add: d'_def)
  have mono: "reaches d' q i" if "reaches (data m) q i" for q i
  proof (rule reaches_mono [OF that len])
    show "\<forall>q<length (data m). used (data m ! q) \<or> deleted (data m ! q) \<longrightarrow>
        (used (d' ! q) \<or> deleted (d' ! q)) \<and>
        (next (d' ! q) = next (data m ! q) \<or> length (data m) \<le> next (data m ! q))"
    proof (intro allI impI)
      fix q assume "q < length (data m)" "used (data m ! q) \<or> deleted (data m ! q)"
      then show "(used (d' ! q) \<or> deleted (d' ! q)) \<and>
        (next (d' ! q) = next (data m ! q) \<or> length (data m) \<le> next (data m ! q))"
        using atpos other [of q] by (cases "q = pos") simp_all
    qed
  qed
  have lookup_old: "map_of (values m @ [(fresh m, x)]) a = Some kv"
    if "map_of (values m) a = Some kv" for a kv
    using that by (simp add: map_add_Some_iff)
  have lookup_new: "map_of (values m @ [(fresh m, x)]) (fresh m) = Some x"
    using fr by (simp add: map_add_Some_iff map_of_eq_None_iff)
  have c6: "\<exists>a kv. value (d' ! i) = Node a \<and> map_of (values m @ [(fresh m, x)]) a = Some kv \<and>
      reaches d' (bucket m (fst kv)) i"
    if "i < length d'" "used (d' ! i)" for i
  proof (cases "i = pos")
    case True
    with atpos(3) lookup_new mono [OF rc] show ?thesis by blast
  next
    case False
    with that have "i < length (data m)" "used (data m ! i)" by (simp_all add: len other)
    from D(6) [OF this] obtain a kv where "value (data m ! i) = Node a"
      "map_of (values m) a = Some kv" "reaches (data m) (bucket m (fst kv)) i" by blast
    with False have "value (d' ! i) = Node a"
      "map_of (values m @ [(fresh m, x)]) a = Some kv" "reaches d' (bucket m (fst kv)) i"
      using lookup_old mono other by simp_all
    then show ?thesis by blast
  qed
  have c7: "\<exists>i < length d'. used (d' ! i) \<and> value (d' ! i) = Node a"
    if "a \<in> fst ` set (values m @ [(fresh m, x)])" for a
  proof (cases "a = fresh m")
    case True
    with atpos pos len show ?thesis by auto
  next
    case False
    with that have "a \<in> fst ` set (values m)" by auto
    from D(7) [OF this] obtain i where i: "i < length (data m)" "used (data m ! i)"
      "value (data m ! i) = Node a" by blast
    with nu have "i \<noteq> pos" by auto
    with i show ?thesis using other len by auto
  qed
  have c8: "i = j" if "i < length d'" "j < length d'" "used (d' ! i)" "used (d' ! j)"
    "value (d' ! i) = value (d' ! j)" for i j
  proof -
    have old_ne: "value (data m ! k) \<noteq> Node (fresh m)"
      if "k < length (data m)" "used (data m ! k)" for k
    proof -
      from D(6) [OF that] obtain a kv where "value (data m ! k) = Node a"
        "map_of (values m) a = Some kv" by blast
      then have "a \<in> fst ` set (values m)" by (metis map_of_SomeD fst_conv image_eqI)
      with fr \<open>value (data m ! k) = Node a\<close> show ?thesis by force
    qed
    show ?thesis
    proof (cases "i = pos"; cases "j = pos")
      assume "i = pos" "j = pos" then show ?thesis by simp
    next
      assume ij: "i = pos" "j \<noteq> pos"
      with that atpos other len old_ne [of j] show ?thesis by auto
    next
      assume ij: "i \<noteq> pos" "j = pos"
      with that atpos other len old_ne [of i] show ?thesis by auto
    next
      assume ij: "i \<noteq> pos" "j \<noteq> pos"
      with that other len D(8) [of i j] show ?thesis by auto
    qed
  qed
  have c4: "\<not> (used (d' ! i) \<and> deleted (d' ! i))" if "i < length d'" for i
    using that atpos other D(4) len by (cases "i = pos") auto
  have c5: "next (d' ! i) = NONE" if "i < length d'" "\<not> used (d' ! i)" "\<not> deleted (d' ! i)" for i
    using that atpos other D(5) len by (cases "i = pos") auto
  have c2: "distinct (map fst (values m @ [(fresh m, x)]))"
    using D(2) fr by simp
  have c3: "\<forall>a \<in> fst ` set (values m @ [(fresh m, x)]). a < Suc (fresh m)"
    using D(3) by (auto simp: less_Suc_eq)
  have sel: "data m' = d'" "values m' = values m @ [(fresh m, x)]" "fresh m' = Suc (fresh m)"
    by (simp_all add: m')
  show ?thesis
    unfolding chains_ok_def sel b
  proof (intro conjI allI impI ballI)
    show "length d' \<le> NONE" using D(1) len by simp
    show "distinct (map fst (values m @ [(fresh m, x)]))" by (rule c2)
    show "a < Suc (fresh m)" if "a \<in> fst ` set (values m @ [(fresh m, x)])" for a
      using c3 that by blast
    show "\<not> (used (d' ! i) \<and> deleted (d' ! i))" if "i < length d'" for i
      using that by (rule c4)
    show "next (d' ! i) = NONE" if "i < length d'" "\<not> used (d' ! i) \<and> \<not> deleted (d' ! i)" for i
      using that c5 by blast
    show "\<exists>a kv. value (d' ! i) = Node a \<and> map_of (values m @ [(fresh m, x)]) a = Some kv \<and>
        reaches d' (bucket m (fst kv)) i" if "i < length d'" "used (d' ! i)" for i
      using that by (rule c6)
    show "\<exists>i<length d'. used (d' ! i) \<and> value (d' ! i) = Node a"
      if "a \<in> fst ` set (values m @ [(fresh m, x)])" for a
      using that by (rule c7)
    show "i = j" if "i < length d'" "j < length d'"
      "used (d' ! i) \<and> used (d' ! j) \<and> value (d' ! i) = value (d' ! j)" for i j
      using that c8 by blast
  qed
qed

lemma chains_ok_link:
  assumes ok: "chains_ok m" and p2: "pos2 < length (data m)"
    and u2: "used (data m ! pos2)" and nx: "next (data m ! pos2) = NONE"
  shows "chains_ok (m\<lparr>start_pos := nf,
      data := (data m)[pos2 := (data m ! pos2)\<lparr>next := nf\<rparr>]\<rparr>)"
proof -
  define d' where "d' = (data m)[pos2 := (data m ! pos2)\<lparr>next := nf\<rparr>]"
  define m' where "m' = m\<lparr>start_pos := nf, data := d'\<rparr>"
  note D = chains_okD [OF ok]
  have len: "length d' = length (data m)" by (simp add: d'_def)
  have b: "bucket m' k = bucket m k" for k by (simp add: m'_def bucket_def)
  have f: "used (d' ! i) = used (data m ! i)" "deleted (d' ! i) = deleted (data m ! i)"
    "value (d' ! i) = value (data m ! i)" if "i < length (data m)" for i
    using link_fields [OF that, of pos2 nf] by (simp_all add: d'_def)
  have nxt: "next (d' ! i) = next (data m ! i)" if "i \<noteq> pos2" for i
    using that by (simp add: d'_def)
  have mono: "reaches d' q i" if "reaches (data m) q i" for q i
  proof (rule reaches_mono [OF that len])
    show "\<forall>q<length (data m). used (data m ! q) \<or> deleted (data m ! q) \<longrightarrow>
        (used (d' ! q) \<or> deleted (d' ! q)) \<and>
        (next (d' ! q) = next (data m ! q) \<or> length (data m) \<le> next (data m ! q))"
    proof (intro allI impI)
      fix q assume q: "q < length (data m)" "used (data m ! q) \<or> deleted (data m ! q)"
      show "(used (d' ! q) \<or> deleted (d' ! q)) \<and>
        (next (d' ! q) = next (data m ! q) \<or> length (data m) \<le> next (data m ! q))"
      proof (cases "q = pos2")
        case True
        with q f [of q] nx D(1) show ?thesis by simp
      next
        case False
        with q f [of q] nxt [of q] show ?thesis by simp
      qed
    qed
  qed
  have sel: "data m' = d'" "values m' = values m" "fresh m' = fresh m"
    by (simp_all add: m'_def)
  have "chains_ok m'"
    unfolding chains_ok_def sel b
  proof (intro conjI allI impI ballI)
    show "length d' \<le> NONE" using D(1) len by simp
    show "distinct (map fst (values m))" by (rule D(2))
    show "a < fresh m" if "a \<in> fst ` set (values m)" for a using that by (rule D(3))
    show "\<not> (used (d' ! i) \<and> deleted (d' ! i))" if "i < length d'" for i
      using that D(4) [of i] f [of i] len by auto
    show "next (d' ! i) = NONE" if "i < length d'" "\<not> used (d' ! i) \<and> \<not> deleted (d' ! i)" for i
    proof -
      from that u2 f [of i] len have "i \<noteq> pos2" by auto
      with that D(5) [of i] f [of i] nxt [of i] len show ?thesis by auto
    qed
    show "\<exists>a kv. value (d' ! i) = Node a \<and> map_of (values m) a = Some kv \<and>
        reaches d' (bucket m (fst kv)) i" if "i < length d'" "used (d' ! i)" for i
    proof -
      from that have i: "i < length (data m)" "used (data m ! i)" using f [of i] len by auto
      from D(6) [OF this] obtain a kv where "value (data m ! i) = Node a"
        "map_of (values m) a = Some kv" "reaches (data m) (bucket m (fst kv)) i" by blast
      with i have "value (d' ! i) = Node a" "map_of (values m) a = Some kv"
        "reaches d' (bucket m (fst kv)) i" using f [of i] mono by simp_all
      then show ?thesis by blast
    qed
    show "\<exists>i<length d'. used (d' ! i) \<and> value (d' ! i) = Node a"
      if "a \<in> fst ` set (values m)" for a
    proof -
      from D(7) [OF that] obtain i where "i < length (data m)" "used (data m ! i)"
        "value (data m ! i) = Node a" by blast
      then have "i < length d' \<and> used (d' ! i) \<and> value (d' ! i) = Node a"
        using f [of i] len by simp
      then show ?thesis by blast
    qed
    show "i = j" if "i < length d'" "j < length d'"
      "used (d' ! i) \<and> used (d' ! j) \<and> value (d' ! i) = value (d' ! j)" for i j
      using that D(8) [of i j] f [of i] f [of j] len by auto
  qed
  then show ?thesis by (simp add: m'_def d'_def)
qed

lemma reaches_link:
  assumes r: "reaches (data m) b pos2" and ok: "chains_ok m"
    and u2: "used (data m ! pos2)" and nx: "next (data m ! pos2) = NONE"
    and nf: "nf < length (data m)"
  shows "reaches ((data m)[pos2 := (data m ! pos2)\<lparr>next := nf\<rparr>]) b nf"
proof -
  define d' where "d' = (data m)[pos2 := (data m ! pos2)\<lparr>next := nf\<rparr>]"
  note D = chains_okD [OF ok]
  from r have p2: "pos2 < length (data m)" by (auto dest: reaches_in_range)
  have len: "length d' = length (data m)" by (simp add: d'_def)
  have f: "used (d' ! i) = used (data m ! i)" "deleted (d' ! i) = deleted (data m ! i)"
    if "i < length (data m)" for i
    using link_fields [OF that, of pos2 nf] by (simp_all add: d'_def)
  have nxt: "next (d' ! i) = next (data m ! i)" if "i \<noteq> pos2" for i
    using that by (simp add: d'_def)
  have "reaches d' b pos2"
  proof (rule reaches_mono [OF r len])
    show "\<forall>q<length (data m). used (data m ! q) \<or> deleted (data m ! q) \<longrightarrow>
        (used (d' ! q) \<or> deleted (d' ! q)) \<and>
        (next (d' ! q) = next (data m ! q) \<or> length (data m) \<le> next (data m ! q))"
    proof (intro allI impI)
      fix q assume q: "q < length (data m)" "used (data m ! q) \<or> deleted (data m ! q)"
      show "(used (d' ! q) \<or> deleted (d' ! q)) \<and>
        (next (d' ! q) = next (data m ! q) \<or> length (data m) \<le> next (data m ! q))"
      proof (cases "q = pos2")
        case True
        with q f [of q] nx D(1) show ?thesis by simp
      next
        case False
        with q f [of q] nxt [of q] show ?thesis by simp
      qed
    qed
  qed
  moreover have "used (d' ! pos2)" using u2 p2 f by simp
  moreover have "next (d' ! pos2) = nf" using p2 by (simp add: d'_def)
  ultimately have "reaches d' b (next (d' ! pos2))"
    using nf len by (intro reaches_snoc) simp_all
  with \<open>next (d' ! pos2) = nf\<close> show ?thesis by (simp add: d'_def)
qed

lemma u64_le_NONE: "u64 n \<le> NONE"
  by (simp add: u64_def NONE_def)

lemma chains_ok_empty:
  assumes "values m = []" and "\<forall>i < length (data m). data m ! i = Data_init"
    and "length (data m) \<le> NONE"
  shows "chains_ok m"
  using assms unfolding chains_ok_def by (simp add: Data_init_def)

lemma chains_ok_reset: "chains_ok ((Rehash_reset m t)\<lparr>values := [], positions := []\<rparr>)"
  by (rule chains_ok_empty) (simp_all add: Rehash_reset_def Let_def u64_le_NONE)

lemma chains_ok_reset_empty: "values m = [] \<Longrightarrow> chains_ok (Rehash_reset m t)"
  by (rule chains_ok_empty) (simp_all add: Rehash_reset_def Let_def u64_le_NONE)

lemma chains_ok_Insert_Rehash:
  "(\<forall>(m :: ('k, 'v) HashMap) x m' p.
      chains_ok m \<longrightarrow> Insert n m x (bucket m (fst x)) = Some (m', p) \<longrightarrow> chains_ok m') \<and>
   (\<forall>(m :: ('k, 'v) HashMap) t m'. Rehash n m t = Some m' \<longrightarrow> chains_ok m') \<and>
   (\<forall>(m :: ('k, 'v) HashMap) xs m'.
      chains_ok m \<longrightarrow> Insert_all n m xs = Some m' \<longrightarrow> chains_ok m')"
proof (induction n)
  case 0
  show ?case
    by (auto simp: chains_ok_reset_empty split: if_splits dest: Insert_all_0)
next
  case (Suc n)
  from Suc have ihI: "chains_ok m \<Longrightarrow> Insert n m x (bucket m (fst x)) = Some (m', p) \<Longrightarrow>
      chains_ok m'" for m :: "('k, 'v) HashMap" and x m' p by blast
  from Suc have ihR: "Rehash n m t = Some m' \<Longrightarrow> chains_ok m'"
    for m :: "('k, 'v) HashMap" and t m' by blast
  from Suc have ihA: "chains_ok m \<Longrightarrow> Insert_all n m xs = Some m' \<Longrightarrow> chains_ok m'"
    for m :: "('k, 'v) HashMap" and xs m' by blast
  have ins: "chains_ok m'"
    if ok: "chains_ok m" and i: "Insert (Suc n) m x (bucket m (fst x)) = Some (m', p)"
    for m :: "('k, 'v) HashMap" and x m' p
    using i
  proof (cases rule: Insert_Suc_cases)
    case (direct m1 pos1)
    from direct(1) ok ihR have ok1: "chains_ok m1" and b: "pos1 = bucket m1 (fst x)" by auto
    from direct(2) b have "reaches (data m1) (bucket m1 (fst x)) pos1"
      by (auto intro: reaches.here)
    with ok1 direct(3,4) show ?thesis by (auto intro: chains_ok_place)
  next
    case (exitA m1 pos1 pos2 d)
    from exitA(1) ok ihR have ok1: "chains_ok m1" and b: "pos1 = bucket m1 (fst x)" by auto
    from Insert_walk_reaches [OF exitA(4)] chains_okD(5) [OF ok1] b
    have "reaches (data m1) (bucket m1 (fst x)) pos2" by auto
    with ok1 exitA(5,6) show ?thesis by (auto intro: chains_ok_place)
  next
    case (exitB m1 pos1 pos2 d nf)
    from exitB(1) ok ihR have ok1: "chains_ok m1" and b: "pos1 = bucket m1 (fst x)" by auto
    from Insert_walk_reaches [OF exitB(4)] chains_okD(5) [OF ok1] b
    have r: "reaches (data m1) (bucket m1 (fst x)) pos2"
      and t: "next (data m1 ! pos2) = NONE \<or> deleted (data m1 ! pos2)" by auto
    from r have p2: "pos2 < length (data m1)" by (auto dest: reaches_in_range)
    with t exitB(5) chains_okD(4) [OF ok1] have nx: "next (data m1 ! pos2) = NONE" by blast
    from Insert_scan_first_unused [OF exitB(6)] have
      nf: "nf < length (data m1)" "\<not> used (data m1 ! nf)" by blast+
    define m2 where "m2 = m1\<lparr>start_pos := nf,
        data := (data m1)[pos2 := (data m1 ! pos2)\<lparr>next := nf\<rparr>]\<rparr>"
    have ok2: "chains_ok m2"
      unfolding m2_def using ok1 p2 exitB(5) nx by (rule chains_ok_link)
    have r2: "reaches (data m2) (bucket m2 (fst x)) nf"
      using reaches_link [OF r ok1 exitB(5) nx nf(1)] by (simp add: m2_def bucket_def)
    have "\<not> used (data m2 ! nf)"
      using nf link_fields [OF nf(1), of pos2 nf] by (simp add: m2_def)
    with ok2 r2 exitB(7) show ?thesis
      unfolding m2_def [symmetric] by (auto intro: chains_ok_place)
  next
    case (retry m1 pos1 pos2 d m2)
    from ihR [OF retry(7)] have "chains_ok m2" .
    from ihI [OF this retry(8)] show ?thesis .
  qed
  have all: "chains_ok m \<Longrightarrow> Insert_all (Suc n) m xs = Some m' \<Longrightarrow> chains_ok m'"
    for m :: "('k, 'v) HashMap" and xs m'
  proof (induction xs arbitrary: m)
    case Nil
    then show ?case by simp
  next
    case (Cons x xs)
    from Cons.prems(2) obtain m1 p where
      s1: "Insert (Suc n) m x (bucket m (fst x)) = Some (m1, p)"
      and s2: "Insert_all (Suc n) m1 xs = Some m'"
      by (simp del: Insert.simps split: option.splits prod.splits)
    from ins [OF Cons.prems(1) s1] have "chains_ok m1" .
    from Cons.IH [OF this s2] show ?case .
  qed
  have reh: "chains_ok m'" if "Rehash (Suc n) m t = Some m'"
    for m :: "('k, 'v) HashMap" and t m'
  proof (cases "values m = []")
    case True
    with that show ?thesis by (auto simp: chains_ok_reset_empty)
  next
    case False
    with that have
      "Insert_all n ((Rehash_reset m t)\<lparr>values := [], positions := []\<rparr>) (map snd (values m)) = Some m'"
      by simp
    from ihA [OF chains_ok_reset this] show ?thesis .
  qed
  show ?case
  proof (intro conjI allI impI)
    fix m :: "('k, 'v) HashMap" and x m' p
    assume "chains_ok m" "Insert (Suc n) m x (bucket m (fst x)) = Some (m', p)"
    then show "chains_ok m'" by (rule ins)
  next
    fix m :: "('k, 'v) HashMap" and t m'
    assume "Rehash (Suc n) m t = Some m'"
    then show "chains_ok m'" by (rule reh)
  next
    fix m :: "('k, 'v) HashMap" and xs m'
    assume "chains_ok m" "Insert_all (Suc n) m xs = Some m'"
    then show "chains_ok m'" by (rule all)
  qed
qed

lemma rev_pos_update_fields:
  "i < length d \<Longrightarrow>
     used (d[l := (d ! l)\<lparr>rev_pos := q\<rparr>] ! i) = used (d ! i) \<and>
     deleted (d[l := (d ! l)\<lparr>rev_pos := q\<rparr>] ! i) = deleted (d ! i) \<and>
     value (d[l := (d ! l)\<lparr>rev_pos := q\<rparr>] ! i) = value (d ! i) \<and>
     next (d[l := (d ! l)\<lparr>rev_pos := q\<rparr>] ! i) = next (d ! i)"
  by (cases "i = l") simp_all

lemma erase_effect:
  assumes er: "erase m key = Some m'" and f: "Find m key (bucket m key) = Some r"
    and r: "r \<noteq> NONE"
  shows "\<exists>a. value (data m ! r) = Node a \<and> a \<in> fst ` set (values m) \<and>
      values m' = list_erase a (values m) \<and> fresh m' = fresh m \<and> hasher m' = hasher m \<and>
      primary_size m' = primary_size m \<and> length (data m') = length (data m) \<and>
      \<not> used (data m' ! r) \<and> deleted (data m' ! r) \<and>
      next (data m' ! r) = next (data m ! r) \<and>
      (\<forall>i < length (data m). i \<noteq> r \<longrightarrow>
         used (data m' ! i) = used (data m ! i) \<and>
         deleted (data m' ! i) = deleted (data m ! i) \<and>
         value (data m' ! i) = value (data m ! i) \<and>
         next (data m' ! i) = next (data m ! i))"
proof -
  define l where "l = last (positions m)"
  define q where "q = rev_pos (data m ! r)"
  define d1 where "d1 = (data m)[l := (data m ! l)\<lparr>rev_pos := q\<rparr>]"
  from Find_Some [OF f] r have rl: "r < length (data m)" by blast
  from er f r rl obtain a where a: "value (d1 ! r) = Node a" "a \<in> fst ` set (values m)"
    and m': "m' = m\<lparr>positions :=
          butlast ((positions m)[rev_pos (d1 ! r) := l,
             length (positions m) - 1 := positions m ! rev_pos (d1 ! r)]),
        values := list_erase a (values m),
        data := d1[r := (d1 ! r)\<lparr>value := Singular, used := False, deleted := True\<rparr>],
        element_count := u64 (element_count m + 18446744073709551615)\<rparr>"
    by (auto simp: erase_def Let_def l_def [symmetric] q_def [symmetric] d1_def [symmetric]
        split: if_splits iterator.splits)
  have d1f: "used (d1 ! i) = used (data m ! i)" "deleted (d1 ! i) = deleted (data m ! i)"
    "value (d1 ! i) = value (data m ! i)" "next (d1 ! i) = next (data m ! i)"
    if "i < length (data m)" for i
    using rev_pos_update_fields [OF that, of l q] by (simp_all add: d1_def)
  have len1: "length d1 = length (data m)" by (simp add: d1_def)
  have "value (data m ! r) = Node a" using a(1) d1f(3) [OF rl] by simp
  moreover have "\<forall>i < length (data m). i \<noteq> r \<longrightarrow>
         used (data m' ! i) = used (data m ! i) \<and>
         deleted (data m' ! i) = deleted (data m ! i) \<and>
         value (data m' ! i) = value (data m ! i) \<and>
         next (data m' ! i) = next (data m ! i)"
    using d1f by (simp add: m')
  moreover have "\<not> used (data m' ! r)" "deleted (data m' ! r)"
    "next (data m' ! r) = next (data m ! r)"
    using rl len1 d1f(4) [OF rl] by (simp_all add: m')
  ultimately show ?thesis using a(2) len1 by (simp add: m')
qed

lemma list_erase_map_of: "b \<noteq> a \<Longrightarrow> map_of (list_erase a vs) b = map_of vs b"
  by (induction vs) auto

lemma list_erase_set: "set (list_erase a vs) \<subseteq> set vs"
  by (induction vs) auto

lemma list_erase_distinct:
  "distinct (map fst vs) \<Longrightarrow>
     distinct (map fst (list_erase a vs)) \<and> a \<notin> fst ` set (list_erase a vs)"
proof (induction vs)
  case Nil
  then show ?case by simp
next
  case (Cons n ns)
  then show ?case using list_erase_set [of a ns] by (auto simp: image_iff)
qed

lemma chains_ok_erase:
  assumes ok: "chains_ok m" and er: "erase m key = Some m'"
  shows "chains_ok m'"
proof (cases "Find m key (bucket m key)")
  case None
  with er show ?thesis by (simp add: erase_def)
next
  case (Some r)
  show ?thesis
  proof (cases "r = NONE")
    case True
    with Some er ok show ?thesis by (simp add: erase_def)
  next
    case False
    note D = chains_okD [OF ok]
    from Find_Some [OF Some] False have rl: "r < length (data m)" and ur: "used (data m ! r)"
      by blast+
    from erase_effect [OF er Some False] obtain a where
      a: "value (data m ! r) = Node a" "a \<in> fst ` set (values m)"
      and v: "values m' = list_erase a (values m)"
      and s: "fresh m' = fresh m" "hasher m' = hasher m" "primary_size m' = primary_size m"
      and len: "length (data m') = length (data m)"
      and atr: "\<not> used (data m' ! r)" "deleted (data m' ! r)"
        "next (data m' ! r) = next (data m ! r)"
      and oth: "\<forall>i < length (data m). i \<noteq> r \<longrightarrow>
         used (data m' ! i) = used (data m ! i) \<and>
         deleted (data m' ! i) = deleted (data m ! i) \<and>
         value (data m' ! i) = value (data m ! i) \<and>
         next (data m' ! i) = next (data m ! i)"
      by blast
    have b: "bucket m' k = bucket m k" for k by (simp add: bucket_def s)
    have mono: "reaches (data m') p i" if "reaches (data m) p i" for p i
    proof (rule reaches_mono [OF that len])
      show "\<forall>q<length (data m). used (data m ! q) \<or> deleted (data m ! q) \<longrightarrow>
          (used (data m' ! q) \<or> deleted (data m' ! q)) \<and>
          (next (data m' ! q) = next (data m ! q) \<or> length (data m) \<le> next (data m ! q))"
      proof (intro allI impI)
        fix q assume q: "q < length (data m)" "used (data m ! q) \<or> deleted (data m ! q)"
        show "(used (data m' ! q) \<or> deleted (data m' ! q)) \<and>
          (next (data m' ! q) = next (data m ! q) \<or> length (data m) \<le> next (data m ! q))"
          using q atr oth by (cases "q = r") auto
      qed
    qed
    from list_erase_distinct [OF D(2), of a] have
      dist: "distinct (map fst (list_erase a (values m)))"
      and gone: "a \<notin> fst ` set (list_erase a (values m))" by blast+
    show ?thesis
      unfolding chains_ok_def v s b
    proof (intro conjI allI impI ballI)
      show "length (data m') \<le> NONE" using D(1) len by simp
      show "distinct (map fst (list_erase a (values m)))" by (rule dist)
      show "a' < fresh m" if "a' \<in> fst ` set (list_erase a (values m))" for a'
        using that list_erase_set [of a "values m"] D(3) [of a'] by auto
      show "\<not> (used (data m' ! i) \<and> deleted (data m' ! i))" if "i < length (data m')" for i
        using that atr oth D(4) [of i] len by (cases "i = r") auto
      show "next (data m' ! i) = NONE"
        if "i < length (data m')" "\<not> used (data m' ! i) \<and> \<not> deleted (data m' ! i)" for i
        using that atr oth D(5) [of i] len by (cases "i = r") auto
      show "\<exists>a' kv. value (data m' ! i) = Node a' \<and>
          map_of (list_erase a (values m)) a' = Some kv \<and>
          reaches (data m') (bucket m (fst kv)) i"
        if "i < length (data m')" "used (data m' ! i)" for i
      proof -
        from that atr have ir: "i \<noteq> r" by auto
        with that oth len have i: "i < length (data m)" "used (data m ! i)" by auto
        from D(6) [OF i] obtain a' kv where k: "value (data m ! i) = Node a'"
          "map_of (values m) a' = Some kv" "reaches (data m) (bucket m (fst kv)) i" by blast
        from D(8) [OF i(1) rl i(2) ur] ir k(1) a(1) have "a' \<noteq> a" by auto
        with k ir i oth have "value (data m' ! i) = Node a'"
          "map_of (list_erase a (values m)) a' = Some kv"
          "reaches (data m') (bucket m (fst kv)) i"
          using mono list_erase_map_of [of a' a "values m"] by simp_all
        then show ?thesis by blast
      qed
      show "\<exists>i<length (data m'). used (data m' ! i) \<and> value (data m' ! i) = Node a'"
        if "a' \<in> fst ` set (list_erase a (values m))" for a'
      proof -
        from that gone have ne: "a' \<noteq> a" by auto
        from that list_erase_set [of a "values m"] have "a' \<in> fst ` set (values m)" by auto
        from D(7) [OF this] obtain i where i: "i < length (data m)" "used (data m ! i)"
          "value (data m ! i) = Node a'" by blast
        with ne a(1) have "i \<noteq> r" by auto
        with i oth len have "i < length (data m') \<and> used (data m' ! i) \<and>
            value (data m' ! i) = Node a'" by simp
        then show ?thesis by blast
      qed
      show "i = j" if "i < length (data m')" "j < length (data m')"
        "used (data m' ! i) \<and> used (data m' ! j) \<and> value (data m' ! i) = value (data m' ! j)"
        for i j
      proof -
        from that atr have "i \<noteq> r" "j \<noteq> r" by auto
        with that oth len D(8) [of i j] show ?thesis by auto
      qed
    qed
  qed
qed

lemma chains_ok_clear:
  assumes ok: "chains_ok m" and pk: "positions_ok m" and cl: "clear m = Some m'"
  shows "chains_ok m'"
proof -
  note D = chains_okD [OF ok]
  from positions_ok_clear [OF pk] cl have
    v: "values m' = []" and len: "length (data m') = length (data m)"
    and d: "\<forall>i < length (data m). data m' ! i =
        (if i \<in> set (positions m) then Data_init else data m ! i)"
    and nu: "\<forall>i < length (data m'). \<not> used (data m' ! i)"
    by auto
  show ?thesis
    unfolding chains_ok_def v
  proof (intro conjI allI impI ballI)
    show "length (data m') \<le> NONE" using D(1) len by simp
    show "\<not> (used (data m' ! i) \<and> deleted (data m' ! i))" if "i < length (data m')" for i
      using that nu by blast
    show "next (data m' ! i) = NONE"
      if "i < length (data m')" "\<not> used (data m' ! i) \<and> \<not> deleted (data m' ! i)" for i
    proof (cases "i \<in> set (positions m)")
      case True
      with that d len show ?thesis by (simp add: Data_init_def)
    next
      case False
      with that d len have e: "data m' ! i = data m ! i" by simp
      with that D(5) [of i] len show ?thesis by simp
    qed
  qed (use nu in auto)
qed

lemma chains_ok_Insert:
  "chains_ok m \<Longrightarrow> Insert n m x (bucket m (fst x)) = Some (m', p) \<Longrightarrow> chains_ok m'"
  using chains_ok_Insert_Rehash by blast

lemma chains_ok_Rehash: "Rehash n m t = Some m' \<Longrightarrow> chains_ok m'"
  using chains_ok_Insert_Rehash by blast

lemma chains_ok_Insert_all:
  "chains_ok m \<Longrightarrow> Insert_all n m xs = Some m' \<Longrightarrow> chains_ok m'"
  using chains_ok_Insert_Rehash by blast

lemma reachable_chains_ok: "reachable m \<Longrightarrow> positions_ok m \<and> chains_ok m"
proof (rule reachable_invariant [where I = "\<lambda>m. positions_ok m \<and> chains_ok m"])
  show "positions_ok m' \<and> chains_ok m'"
    if "positions_ok m \<and> chains_ok m" "Insert n m x (bucket m (fst x)) = Some (m', p)"
    for n and m :: "('a, 'b) HashMap" and x m' p
    using that positions_ok_Insert [of m n x _ m' p] chains_ok_Insert [of m n x m' p] by blast
  show "positions_ok m' \<and> chains_ok m'"
    if "positions_ok m \<and> chains_ok m" "Insert_all n m xs = Some m'"
    for n and m :: "('a, 'b) HashMap" and xs m'
    using that positions_ok_Insert_all [of m n xs m'] chains_ok_Insert_all [of m n xs m']
    by blast
  show "positions_ok m' \<and> chains_ok m'"
    if "positions m = []" "Rehash n m t = Some m'"
    for n and m :: "('a, 'b) HashMap" and t m'
    using that positions_ok_Rehash [of m n t m'] chains_ok_Rehash [of n m t m'] by simp
  show "positions_ok m' \<and> chains_ok m'"
    if "positions_ok m \<and> chains_ok m" "erase m key = Some m'"
    for m :: "('a, 'b) HashMap" and key m'
    using that positions_ok_erase [of m key m'] chains_ok_erase [of m key m'] by blast
  show "positions_ok m' \<and> chains_ok m'"
    if "positions_ok m \<and> chains_ok m" "clear m = Some m'"
    for m m' :: "('a, 'b) HashMap"
    using that positions_ok_clear [of m] chains_ok_clear [of m m'] by auto
  show "positions_ok
      \<lparr>values = [], positions = [],
       data = replicate (u64 (primary_size other + cellar_size other)) Data_init,
       element_count = 0, primary_size = primary_size other,
       cellar_size = cellar_size other,
       start_pos = u64 (primary_size other + cellar_size other + 18446744073709551615),
       hasher = h, fresh = fr\<rparr> \<and>
    chains_ok
      \<lparr>values = [], positions = [],
       data = replicate (u64 (primary_size other + cellar_size other)) Data_init,
       element_count = 0, primary_size = primary_size other,
       cellar_size = cellar_size other,
       start_pos = u64 (primary_size other + cellar_size other + 18446744073709551615),
       hasher = h, fresh = fr\<rparr>"
    for other :: "('a, 'b) HashMap" and h fr
    by (rule conjI, simp add: positions_ok_def Data_init_unused,
        rule chains_ok_empty) (simp_all add: u64_le_NONE)
qed

lemma Find_correct:
  assumes ok: "chains_ok m" and f: "Find m key (bucket m key) = Some r"
  shows "(r = NONE \<longleftrightarrow> key \<notin> fst ` set (iterate m)) \<and>
     (r \<noteq> NONE \<longrightarrow> r < length (data m) \<and> used (data m ! r) \<and>
        (\<exists>v. deref m (value (data m ! r)) = Some (key, v) \<and> (key, v) \<in> set (iterate m)))"
proof -
  note D = chains_okD [OF ok]
  have found: "r < length (data m) \<and> used (data m ! r) \<and>
      (\<exists>v. deref m (value (data m ! r)) = Some (key, v) \<and> (key, v) \<in> set (iterate m))"
    if "r \<noteq> NONE"
  proof -
    from Find_Some [OF f] that obtain kv where
      r: "r < length (data m)" "used (data m ! r)"
      and kv: "deref m (value (data m ! r)) = Some kv" "fst kv = key" by blast
    from kv(1) obtain a where "map_of (values m) a = Some kv"
      by (auto simp: deref_def split: iterator.splits)
    then have "(a, kv) \<in> set (values m)" by (rule map_of_SomeD)
    then have "kv \<in> set (iterate m)" by (force simp: iterate_def)
    with r kv show ?thesis by (cases kv) auto
  qed
  have absent: "key \<notin> fst ` set (iterate m)" if "r = NONE"
  proof
    assume "key \<in> fst ` set (iterate m)"
    then obtain a v where av: "(a, (key, v)) \<in> set (values m)"
      by (force simp: iterate_def)
    with D(2) have look: "map_of (values m) a = Some (key, v)" by simp
    from av have "a \<in> fst ` set (values m)" by force
    from D(7) [OF this] obtain i where i: "i < length (data m)" "used (data m ! i)"
      "value (data m ! i) = Node a" by blast
    from D(6) [OF i(1,2)] i(3) look have "reaches (data m) (bucket m key) i" by auto
    moreover from i(3) look have "deref m (value (data m ! i)) = Some (key, v)"
      by (simp add: deref_def)
    ultimately have "r \<noteq> NONE"
      using Find_finds [of m "bucket m key" i "(key, v)" key r] i(2) D(1) f by simp
    with that show False by simp
  qed
  have "r = NONE \<longleftrightarrow> key \<notin> fst ` set (iterate m)"
  proof
    assume "r = NONE" then show "key \<notin> fst ` set (iterate m)" by (rule absent)
  next
    assume n: "key \<notin> fst ` set (iterate m)"
    show "r = NONE"
    proof (rule ccontr)
      assume "r \<noteq> NONE"
      from found [OF this] obtain v where "(key, v) \<in> set (iterate m)" by blast
      then have "key \<in> fst ` set (iterate m)" by force
      with n show False by simp
    qed
  qed
  with found show ?thesis by blast
qed


section \<open>Agreement with the reference map\<close>

lemma Find_present_returns:
  assumes ok: "chains_ok m" and r: "reaches (data m) p i" and u: "used (data m ! i)"
    and dr: "deref m (value (data m ! i)) = Some kv" and k: "fst kv = key"
  shows "\<exists>r. Find m key p = Some r"
  using r u dr
proof (induction rule: reaches.induct)
  case (here p)
  note D = chains_okD [OF ok]
  from here D(1) have "p \<noteq> NONE" by auto
  with here k show ?case by (subst Find.simps) simp
next
  case (step p i)
  note D = chains_okD [OF ok]
  from step.hyps(1) D(1) have pn: "p \<noteq> NONE" by auto
  from step.IH [OF step.prems] obtain r where r: "Find m key (next (data m ! p)) = Some r"
    by blast
  show ?case
  proof (cases "used (data m ! p)")
    case True
    from D(6) [OF step.hyps(1) True] obtain a kv' where
      "value (data m ! p) = Node a" "map_of (values m) a = Some kv'" by blast
    then have "deref m (value (data m ! p)) = Some kv'" by (simp add: deref_def)
    with True pn step.hyps(1) r show ?thesis by (subst Find.simps) simp
  next
    case False
    with step.hyps(2) have "deleted (data m ! p)" by simp
    with False pn step.hyps(1) r show ?thesis by (subst Find.simps) simp
  qed
qed

lemma map_of_iterate:
  assumes "distinct (map fst (values m))" and "(a, kv) \<in> set (values m)"
  shows "map_of (values m) a = Some kv"
  using assms by simp

lemma Find_present:
  assumes ok: "chains_ok m" and dk: "distinct (map fst (iterate m))"
    and pr: "map_of (iterate m) key = Some v"
  shows "\<exists>r. Find m key (bucket m key) = Some r \<and> r \<noteq> NONE \<and> r < length (data m) \<and>
    used (data m ! r) \<and> deref m (value (data m ! r)) = Some (key, v)"
proof -
  note D = chains_okD [OF ok]
  from pr have "(key, v) \<in> set (iterate m)" by (rule map_of_SomeD)
  then obtain a where av: "(a, (key, v)) \<in> set (values m)"
    by (force simp: iterate_def)
  with D(2) have look: "map_of (values m) a = Some (key, v)" by simp
  from av have "a \<in> fst ` set (values m)" by force
  from D(7) [OF this] obtain i where i: "i < length (data m)" "used (data m ! i)"
    "value (data m ! i) = Node a" by blast
  from D(6) [OF i(1,2)] i(3) look have rc: "reaches (data m) (bucket m key) i" by auto
  from i(3) look have dr: "deref m (value (data m ! i)) = Some (key, v)"
    by (simp add: deref_def)
  from Find_present_returns [OF ok rc i(2) dr] obtain r where
    r: "Find m key (bucket m key) = Some r" by auto
  from Find_correct [OF ok r] pr have rn: "r \<noteq> NONE"
    by (auto simp: map_of_eq_None_iff [symmetric])
  with Find_correct [OF ok r] obtain v' where v': "r < length (data m)" "used (data m ! r)"
    "deref m (value (data m ! r)) = Some (key, v')" "(key, v') \<in> set (iterate m)" by blast
  from v'(4) dk have "map_of (iterate m) key = Some v'" by simp
  with pr have "v' = v" by simp
  with r rn v' show ?thesis by blast
qed

lemma insert_hm_refines:
  assumes ok: "chains_ok m" and dk: "distinct (map fst (iterate m))"
    and i: "insert_hm n m (k, v) = Some m'"
  shows "distinct (map fst (iterate m')) \<and>
    map_of (iterate m') =
      (if k \<in> dom (map_of (iterate m)) then map_of (iterate m)
       else (map_of (iterate m))(k \<mapsto> v))"
proof -
  from i obtain r where r: "Find m k (bucket m k) = Some r"
    by (auto simp: insert_hm_def Let_def split: option.splits)
  from Find_correct [OF ok r] have rk: "r = NONE \<longleftrightarrow> k \<notin> fst ` set (iterate m)" by blast
  from insert_hm_iterate [OF i] r have
    it: "iterate m' = (if r = NONE then iterate m @ [(k, v)] else iterate m)" by simp
  show ?thesis
  proof (cases "r = NONE")
    case True
    with rk have nk: "k \<notin> fst ` set (iterate m)" by simp
    then have "k \<notin> dom (map_of (iterate m))" by (simp add: dom_map_of_conv_image_fst)
    moreover from nk have none: "map_of (iterate m) k = None"
      by (simp add: map_of_eq_None_iff)
    have "map_of (iterate m @ [(k, v)]) = (map_of (iterate m))(k \<mapsto> v)"
      using none by (auto simp: fun_eq_iff map_add_def split: option.splits)
    ultimately show ?thesis using True it dk nk by simp
  next
    case False
    with rk have "k \<in> dom (map_of (iterate m))" by (simp add: dom_map_of_conv_image_fst)
    with False it dk show ?thesis by simp
  qed
qed

lemma erase_refines:
  assumes ok: "chains_ok m" and dk: "distinct (map fst (iterate m))"
    and e: "erase m k = Some m'"
  shows "distinct (map fst (iterate m')) \<and>
    map_of (iterate m') = (map_of (iterate m))(k := None)"
proof -
  from e obtain r where r: "Find m k (bucket m k) = Some r"
    by (auto simp: erase_def split: option.splits)
  from Find_correct [OF ok r] have rk: "r = NONE \<longleftrightarrow> k \<notin> fst ` set (iterate m)" by blast
  show ?thesis
  proof (cases "r = NONE")
    case True
    with erase_iterate [OF e] r have "iterate m' = iterate m" by simp
    moreover from True rk have "map_of (iterate m) k = None"
      by (simp add: map_of_eq_None_iff)
    ultimately show ?thesis using dk by (auto simp: fun_eq_iff)
  next
    case False
    with erase_iterate [OF e] r obtain ys v zs where
      s: "iterate m = ys @ (k, v) # zs" "iterate m' = ys @ zs" by auto
    from dk s(1) have nk: "k \<notin> fst ` set ys" "k \<notin> fst ` set zs"
      and d: "distinct (map fst (ys @ zs))" by auto
    from nk have none: "map_of ys k = None" "map_of zs k = None"
      by (simp_all add: map_of_eq_None_iff)
    have "map_of (ys @ zs) = (map_of (ys @ (k, v) # zs))(k := None)"
      using none by (auto simp: fun_eq_iff map_add_def split: option.splits)
    with d s show ?thesis by simp
  qed
qed

lemma find_hm_refines:
  assumes ok: "chains_ok m" and dk: "distinct (map fst (iterate m))"
    and f: "find_hm m k = Some it"
  shows "case map_of (iterate m) k of None \<Rightarrow> it = End | Some v \<Rightarrow> deref m it = Some (k, v)"
proof -
  from f obtain r where r: "Find m k (bucket m k) = Some r"
    by (auto simp: find_hm_def split: option.splits)
  show ?thesis
  proof (cases "r = NONE")
    case True
    with Find_correct [OF ok r] have "map_of (iterate m) k = None"
      by (simp add: map_of_eq_None_iff)
    with True r f show ?thesis by (simp add: find_hm_def)
  next
    case False
    with Find_correct [OF ok r] obtain v where v: "r < length (data m)"
      "deref m (value (data m ! r)) = Some (k, v)" "(k, v) \<in> set (iterate m)" by blast
    from v(3) dk have "map_of (iterate m) k = Some v" by simp
    with False r f v show ?thesis by (simp add: find_hm_def)
  qed
qed

lemma apply_ops_refines:
  assumes "reachable m0" and "distinct (map fst (iterate m0))"
    and "apply_ops n m0 ops = Some m"
  shows "reachable m \<and> distinct (map fst (iterate m)) \<and>
    map_of (iterate m) = reference_ops (map_of (iterate m0)) ops"
  using assms
proof (induction ops arbitrary: m0)
  case Nil
  then show ?case by simp
next
  case (Cons op ops)
  from reachable_chains_ok [OF Cons.prems(1)] have ok: "chains_ok m0" and pk: "positions_ok m0"
    by blast+
  show ?case
  proof (cases op)
    case (Op_insert k v)
    with Cons.prems(3) obtain m1 where s: "insert_hm n m0 (k, v) = Some m1"
      "apply_ops n m1 ops = Some m" by (auto split: option.splits)
    from Cons.prems(1) s(1) have r1: "reachable m1" by (rule by_insert)
    from insert_hm_refines [OF ok Cons.prems(2) s(1)] have d1: "distinct (map fst (iterate m1))"
      and a1: "map_of (iterate m1) =
        (if k \<in> dom (map_of (iterate m0)) then map_of (iterate m0)
         else (map_of (iterate m0))(k \<mapsto> v))" by blast+
    have "reference_ops (map_of (iterate m0)) (op # ops) =
        reference_ops (map_of (iterate m1)) ops"
      unfolding Op_insert a1 by (simp only: reference_ops.simps)
    with Cons.IH [OF r1 d1 s(2)] show ?thesis by (simp only:)
  next
    case (Op_erase k)
    with Cons.prems(3) obtain m1 where s: "erase m0 k = Some m1"
      "apply_ops n m1 ops = Some m" by (auto split: option.splits)
    from Cons.prems(1) s(1) have r1: "reachable m1" by (rule by_erase)
    from erase_refines [OF ok Cons.prems(2) s(1)] have d1: "distinct (map fst (iterate m1))"
      and a1: "map_of (iterate m1) = (map_of (iterate m0))(k := None)" by blast+
    have "reference_ops (map_of (iterate m0)) (op # ops) =
        reference_ops (map_of (iterate m1)) ops"
      unfolding Op_erase a1 by (simp only: reference_ops.simps)
    with Cons.IH [OF r1 d1 s(2)] show ?thesis by (simp only:)
  next
    case Op_clear
    with Cons.prems(3) obtain m1 where s: "clear m0 = Some m1"
      "apply_ops n m1 ops = Some m" by (auto split: option.splits)
    from Cons.prems(1) s(1) have r1: "reachable m1" by (rule by_clear)
    from positions_ok_clear [OF pk] s(1) have "values m1 = []" by auto
    then have e: "iterate m1 = []" by (simp add: iterate_def)
    then have d1: "distinct (map fst (iterate m1))" by simp
    have "reference_ops (map_of (iterate m0)) (op # ops) =
        reference_ops (map_of (iterate m1)) ops"
      unfolding Op_clear e by (simp only: reference_ops.simps map_of.simps)
    with Cons.IH [OF r1 d1 s(2)] show ?thesis by (simp only:)
  qed
qed

lemma Insert_place_result:
  assumes fr: "fresh m \<notin> fst ` set (values m)" and ip: "Insert_place m x pos = Some (m', p)"
  shows "p < length (data m') \<and> used (data m' ! p) \<and>
    deref m' (value (data m' ! p)) = Some x"
proof -
  from ip have pos: "pos < length (data m)" and p: "p = pos"
    and m': "m' = m\<lparr>values := values m @ [(fresh m, x)], fresh := Suc (fresh m),
        data := (data m)[pos := (data m ! pos)
          \<lparr>value := Node (fresh m), used := True, deleted := False,
           rev_pos := length (positions m)\<rparr>],
        positions := positions m @ [pos],
        element_count := u64 (element_count m + 1)\<rparr>"
    by (auto simp: Insert_place_def split: if_splits)
  from fr have "map_of (values m @ [(fresh m, x)]) (fresh m) = Some x"
    by (simp add: map_add_Some_iff map_of_eq_None_iff)
  with pos p show ?thesis by (simp add: m' deref_def)
qed

lemma Insert_result:
  "chains_ok m \<Longrightarrow> Insert n m x (bucket m (fst x)) = Some (m', p) \<Longrightarrow>
     p < length (data m') \<and> used (data m' ! p) \<and> deref m' (value (data m' ! p)) = Some x"
proof (induction n arbitrary: m)
  case 0
  then show ?case by simp
next
  case (Suc n)
  from Suc.prems(2) show ?case
  proof (cases rule: Insert_Suc_cases)
    case (direct m1 pos1)
    from direct(1) Suc.prems(1) chains_ok_Rehash have "chains_ok m1" by blast
    then have "fresh m1 \<notin> fst ` set (values m1)" using chains_okD(3) by blast
    from Insert_place_result [OF this direct(4)] show ?thesis .
  next
    case (exitA m1 pos1 pos2 d)
    from exitA(1) Suc.prems(1) chains_ok_Rehash have "chains_ok m1" by blast
    then have "fresh m1 \<notin> fst ` set (values m1)" using chains_okD(3) by blast
    from Insert_place_result [OF this exitA(6)] show ?thesis .
  next
    case (exitB m1 pos1 pos2 d nf)
    from exitB(1) Suc.prems(1) chains_ok_Rehash have "chains_ok m1" by blast
    then have "fresh m1 \<notin> fst ` set (values m1)" using chains_okD(3) by blast
    then have "fresh (m1\<lparr>start_pos := nf,
          data := (data m1)[pos2 := (data m1 ! pos2)\<lparr>next := nf\<rparr>]\<rparr>)
        \<notin> fst ` set (values (m1\<lparr>start_pos := nf,
          data := (data m1)[pos2 := (data m1 ! pos2)\<lparr>next := nf\<rparr>]\<rparr>))" by simp
    from Insert_place_result [OF this exitB(7)] show ?thesis .
  next
    case (retry m1 pos1 pos2 d m2)
    from chains_ok_Rehash [OF retry(7)] have "chains_ok m2" .
    from Suc.IH [OF this retry(8)] show ?thesis .
  qed
qed

lemma operator_index_present:
  assumes ok: "chains_ok m" and dk: "distinct (map fst (iterate m))"
    and pr: "map_of (iterate m) key = Some v"
  shows "\<exists>it. operator_index n m key dflt = Some (m, it, v) \<and> deref m it = Some (key, v)"
proof -
  from Find_present [OF ok dk pr] obtain r where
    "Find m key (bucket m key) = Some r" "r \<noteq> NONE" "r < length (data m)"
    "deref m (value (data m ! r)) = Some (key, v)" by blast
  then show ?thesis by (simp add: operator_index_def Let_def)
qed

lemma operator_index_absent:
  assumes ok: "chains_ok m" and dk: "distinct (map fst (iterate m))"
    and ab: "map_of (iterate m) key = None"
    and oi: "operator_index n m key dflt = Some (m', it, v')"
  shows "v' = dflt \<and> iterate m' = iterate m @ [(key, dflt)] \<and>
    deref m' it = Some (key, dflt) \<and>
    (\<exists>it'. find_hm m' key = Some it' \<and> deref m' it' = Some (key, dflt))"
proof -
  from oi obtain r where r: "Find m key (bucket m key) = Some r"
    by (auto simp: operator_index_def Let_def split: option.splits)
  from ab have "key \<notin> fst ` set (iterate m)" by (simp add: map_of_eq_None_iff)
  with Find_correct [OF ok r] have rn: "r = NONE" by blast
  with oi r obtain p where
    ins: "Insert n m (key, dflt) (bucket m (fst (key, dflt))) = Some (m', p)"
    and it: "it = value (data m' ! p)"
    and v': "\<exists>k'. deref m' (value (data m' ! p)) = Some (k', v')"
    by (auto simp: operator_index_def Let_def split: option.splits if_splits prod.splits)
  from Insert_result [OF ok ins] have res: "deref m' (value (data m' ! p)) = Some (key, dflt)"
    by blast
  with v' have e: "v' = dflt" by auto
  from Insert_iterate [OF ins] have i': "iterate m' = iterate m @ [(key, dflt)]" .
  from chains_ok_Insert [OF ok ins] have ok': "chains_ok m'" .
  from i' dk \<open>key \<notin> fst ` set (iterate m)\<close> have dk': "distinct (map fst (iterate m'))"
    by simp
  from i' ab have "map_of (iterate m') key = Some dflt"
    by (simp add: map_add_def)
  from Find_present [OF ok' dk' this] obtain r' where
    "Find m' key (bucket m' key) = Some r'" "r' \<noteq> NONE" "r' < length (data m')"
    "deref m' (value (data m' ! r')) = Some (key, dflt)" by blast
  then have "find_hm m' key = Some (value (data m' ! r')) \<and>
      deref m' (value (data m' ! r')) = Some (key, dflt)"
    by (simp add: find_hm_def)
  with e i' res it show ?thesis by blast
qed

lemma find_hm_present:
  assumes ok: "chains_ok m" and dk: "distinct (map fst (iterate m))"
    and pr: "map_of (iterate m) key = Some v"
  shows "\<exists>it. find_hm m key = Some it \<and> deref m it = Some (key, v)"
proof -
  from Find_present [OF ok dk pr] obtain r where
    "Find m key (bucket m key) = Some r" "r \<noteq> NONE" "r < length (data m)"
    "deref m (value (data m ! r)) = Some (key, v)" by blast
  then show ?thesis by (simp add: find_hm_def)
qed

lemma erase_filter:
  assumes ok: "chains_ok m" and dk: "distinct (map fst (iterate m))"
    and e: "erase m key = Some m'"
  shows "iterate m' = filter (\<lambda>e. fst e \<noteq> key) (iterate m)"
proof -
  from e obtain r where r: "Find m key (bucket m key) = Some r"
    by (auto simp: erase_def split: option.splits)
  from Find_correct [OF ok r] have rk: "r = NONE \<longleftrightarrow> key \<notin> fst ` set (iterate m)" by blast
  have keep: "filter (\<lambda>e. fst e \<noteq> key) xs = xs" if "key \<notin> fst ` set xs"
    for xs :: "('a \<times> 'b) list"
    using that by (induction xs) auto
  show ?thesis
  proof (cases "r = NONE")
    case True
    with erase_iterate [OF e] r rk keep show ?thesis by simp
  next
    case False
    with erase_iterate [OF e] r obtain ys v zs where
      s: "iterate m = ys @ (key, v) # zs" "iterate m' = ys @ zs" by auto
    from dk s(1) have "key \<notin> fst ` set ys" "key \<notin> fst ` set zs" by auto
    with s keep show ?thesis by simp
  qed
qed

lemma insert_hm_keys:
  assumes ok: "chains_ok m" and i: "insert_hm n m (key, v) = Some m'"
  shows "iterate m' =
    (if key \<in> fst ` set (iterate m) then iterate m else iterate m @ [(key, v)])"
proof -
  from i obtain r where r: "Find m key (bucket m key) = Some r"
    by (auto simp: insert_hm_def Let_def split: option.splits)
  from Find_correct [OF ok r] have "r = NONE \<longleftrightarrow> key \<notin> fst ` set (iterate m)" by blast
  with insert_hm_iterate [OF i] r show ?thesis by auto
qed

section \<open>The element count\<close>

lemma u64_Suc: "u64 (u64 n + 1) = u64 (Suc n)"
  by (simp add: u64_def mod_simps)

lemma u64_pred: "0 < n \<Longrightarrow> u64 (u64 n + 18446744073709551615) = u64 (n - 1)"
proof -
  assume "0 < n"
  then have "n + 18446744073709551615 = (n - 1) + 18446744073709551616" by simp
  then have "(n + 18446744073709551615) mod 18446744073709551616
      = (n - 1) mod 18446744073709551616"
    by (metis mod_add_self2)
  then show ?thesis by (simp add: u64_def mod_simps)
qed

lemma count_Insert_Rehash:
  "(\<forall>(m :: ('k, 'v) HashMap) x pos m' p.
      element_count m = u64 (length (values m)) \<longrightarrow> Insert n m x pos = Some (m', p) \<longrightarrow>
      element_count m' = u64 (length (values m'))) \<and>
   (\<forall>(m :: ('k, 'v) HashMap) t m'.
      True \<longrightarrow> Rehash n m t = Some m' \<longrightarrow> element_count m' = u64 (length (values m'))) \<and>
   (\<forall>(m :: ('k, 'v) HashMap) xs m'.
      element_count m = u64 (length (values m)) \<longrightarrow> Insert_all n m xs = Some m' \<longrightarrow>
      element_count m' = u64 (length (values m')))"
  by (rule Insert_Rehash_invariant
      [where I = "\<lambda>m. element_count m = u64 (length (values m))" and ?I0.0 = "\<lambda>m. True"])
     (auto simp: Insert_place_def Rehash_reset_def Let_def u64_def mod_Suc_eq split: if_splits)

lemma erase_count:
  assumes "erase m key = Some m'"
  shows "m' = m \<or> (\<exists>a. a \<in> fst ` set (values m) \<and> values m' = list_erase a (values m) \<and>
    element_count m' = u64 (element_count m + 18446744073709551615))"
proof (cases "Find m key (bucket m key)")
  case None
  with assms show ?thesis by (simp add: erase_def)
next
  case (Some r)
  show ?thesis
  proof (cases "r = NONE")
    case True
    with Some assms show ?thesis by (simp add: erase_def)
  next
    case False
    define l where "l = last (positions m)"
    define q where "q = rev_pos (data m ! r)"
    define d1 where "d1 = (data m)[l := (data m ! l)\<lparr>rev_pos := q\<rparr>]"
    from Find_Some [OF Some] False have rl: "r < length (data m)" by blast
    from assms Some False rl obtain a where a: "a \<in> fst ` set (values m)"
      and m': "m' = m\<lparr>positions :=
          butlast ((positions m)[rev_pos (d1 ! r) := l,
             length (positions m) - 1 := positions m ! rev_pos (d1 ! r)]),
        values := list_erase a (values m),
        data := d1[r := (d1 ! r)\<lparr>value := Singular, used := False, deleted := True\<rparr>],
        element_count := u64 (element_count m + 18446744073709551615)\<rparr>"
      by (auto simp: erase_def Let_def l_def [symmetric] q_def [symmetric] d1_def [symmetric]
          split: if_splits iterator.splits)
    then show ?thesis by auto
  qed
qed

lemma reachable_count: "reachable m \<Longrightarrow> element_count m = u64 (length (values m))"
proof (rule reachable_invariant [where I = "\<lambda>m. element_count m = u64 (length (values m))"])
  show "element_count m' = u64 (length (values m'))"
    if "element_count m = u64 (length (values m))"
      "Insert n m x (bucket m (fst x)) = Some (m', p)"
    for n and m :: "('a, 'b) HashMap" and x m' p
    using count_Insert_Rehash that by blast
  show "element_count m' = u64 (length (values m'))"
    if "element_count m = u64 (length (values m))" "Insert_all n m xs = Some m'"
    for n and m :: "('a, 'b) HashMap" and xs m'
    using count_Insert_Rehash that by blast
  show "element_count m' = u64 (length (values m'))"
    if "positions m = []" "Rehash n m t = Some m'"
    for n and m :: "('a, 'b) HashMap" and t m'
    using count_Insert_Rehash that by blast
  show "element_count m' = u64 (length (values m'))"
    if c: "element_count m = u64 (length (values m))" and e: "erase m key = Some m'"
    for m :: "('a, 'b) HashMap" and key m'
  proof -
    from erase_count [OF e] consider "m' = m"
      | a where "a \<in> fst ` set (values m)" "values m' = list_erase a (values m)"
        "element_count m' = u64 (element_count m + 18446744073709551615)" by blast
    then show ?thesis
    proof cases
      case 1
      with c show ?thesis by simp
    next
      case 2
      from list_erase_length [OF 2(1)] have "Suc (length (values m')) = length (values m)"
        by (simp add: 2(2))
      then have l: "length (values m') = length (values m) - 1" "0 < length (values m)"
        by linarith+
      with 2(3) c u64_pred [OF l(2)] show ?thesis by simp
    qed
  qed
  show "element_count m' = u64 (length (values m'))"
    if "element_count m = u64 (length (values m))" "clear m = Some m'"
    for m m' :: "('a, 'b) HashMap"
    using that by (auto simp: clear_def u64_def split: option.splits)
qed (simp add: u64_def)

section \<open>The depth bound\<close>

lemma Insert_Suc_intro:
  assumes m1: "(\<not> primary_size m < u64 (2 * element_count m) \<and> m1 = m \<and> pos1 = pos) \<or>
       (primary_size m < u64 (2 * element_count m) \<and>
        Rehash n m (u64 (2 * primary_size m)) = Some m1 \<and> pos1 = bucket m1 (fst x))"
    and rest: "(if length (data m1) \<le> pos1 then None
          else if used (data m1 ! pos1) then
            (case Insert_walk (data m1) pos1 0 of
               None \<Rightarrow> None
             | Some (pos2, distance) \<Rightarrow>
                 if used (data m1 ! pos2) then
                   (case Insert_scan m1 (start_pos m1) distance of
                      None \<Rightarrow> None
                    | Some None \<Rightarrow>
                        (case Rehash n m1 (u64 (2 * primary_size m1)) of
                           None \<Rightarrow> None
                         | Some m2 \<Rightarrow> Insert n m2 x (bucket m2 (fst x)))
                    | Some (Some next_free) \<Rightarrow>
                        Insert_place
                          (m1\<lparr>start_pos := next_free,
                              data := (data m1)[pos2 := (data m1 ! pos2)\<lparr>next := next_free\<rparr>]\<rparr>)
                          x next_free)
                 else Insert_place m1 x pos2)
          else Insert_place m1 x pos1) = r"
  shows "Insert (Suc n) m x pos = r"
  using m1 rest by (auto simp del: Insert.simps(1) Rehash.simps Insert_all.simps)

lemma fuel_mono:
  "(\<forall>(m :: ('k, 'v) HashMap) x pos r.
      Insert n m x pos = Some r \<longrightarrow> Insert (Suc n) m x pos = Some r) \<and>
   (\<forall>(m :: ('k, 'v) HashMap) t r. Rehash n m t = Some r \<longrightarrow> Rehash (Suc n) m t = Some r) \<and>
   (\<forall>(m :: ('k, 'v) HashMap) xs r.
      Insert_all n m xs = Some r \<longrightarrow> Insert_all (Suc n) m xs = Some r)"
proof (induction n)
  case 0
  show ?case by (auto split: if_splits dest: Insert_all_0)
next
  case (Suc n)
  from Suc have ihI: "Insert n m x pos = Some r \<Longrightarrow> Insert (Suc n) m x pos = Some r"
    for m :: "('k, 'v) HashMap" and x pos r by blast
  from Suc have ihR: "Rehash n m t = Some r \<Longrightarrow> Rehash (Suc n) m t = Some r"
    for m :: "('k, 'v) HashMap" and t r by blast
  from Suc have ihA: "Insert_all n m xs = Some r \<Longrightarrow> Insert_all (Suc n) m xs = Some r"
    for m :: "('k, 'v) HashMap" and xs r by blast
  have ins: "Insert (Suc (Suc n)) m x pos = Some r"
    if i: "Insert (Suc n) m x pos = Some r" for m :: "('k, 'v) HashMap" and x pos r
  proof -
    obtain m' p where r: "r = (m', p)" by (cases r)
    from i [unfolded r] have "Insert (Suc (Suc n)) m x pos = Some (m', p)"
    proof (cases rule: Insert_Suc_cases)
      case (direct m1 pos1)
      from direct(1) ihR have "(\<not> primary_size m < u64 (2 * element_count m) \<and> m1 = m \<and> pos1 = pos) \<or>
       (primary_size m < u64 (2 * element_count m) \<and>
        Rehash (Suc n) m (u64 (2 * primary_size m)) = Some m1 \<and> pos1 = bucket m1 (fst x))"
        by blast
      then show ?thesis
        by (rule Insert_Suc_intro) (use direct in simp)
    next
      case (exitA m1 pos1 pos2 d)
      from exitA(1) ihR have "(\<not> primary_size m < u64 (2 * element_count m) \<and> m1 = m \<and> pos1 = pos) \<or>
       (primary_size m < u64 (2 * element_count m) \<and>
        Rehash (Suc n) m (u64 (2 * primary_size m)) = Some m1 \<and> pos1 = bucket m1 (fst x))"
        by blast
      then show ?thesis
        by (rule Insert_Suc_intro) (use exitA in simp)
    next
      case (exitB m1 pos1 pos2 d nf)
      from exitB(1) ihR have "(\<not> primary_size m < u64 (2 * element_count m) \<and> m1 = m \<and> pos1 = pos) \<or>
       (primary_size m < u64 (2 * element_count m) \<and>
        Rehash (Suc n) m (u64 (2 * primary_size m)) = Some m1 \<and> pos1 = bucket m1 (fst x))"
        by blast
      then show ?thesis
        by (rule Insert_Suc_intro) (use exitB in simp)
    next
      case (retry m1 pos1 pos2 d m2)
      from retry(1) ihR have d: "(\<not> primary_size m < u64 (2 * element_count m) \<and> m1 = m \<and> pos1 = pos) \<or>
       (primary_size m < u64 (2 * element_count m) \<and>
        Rehash (Suc n) m (u64 (2 * primary_size m)) = Some m1 \<and> pos1 = bucket m1 (fst x))"
        by blast
      from ihR [OF retry(7)] have
        rh: "Rehash (Suc n) m1 (u64 (2 * primary_size m1)) = Some m2" .
      from ihI [OF retry(8)] have
        ii: "Insert (Suc n) m2 x (bucket m2 (fst x)) = Some (m', p)" .
      show ?thesis
        by (rule Insert_Suc_intro [OF d])
           (use retry(2-6) rh ii in \<open>simp del: Insert.simps Rehash.simps Insert_all.simps\<close>)
    qed
    with r show ?thesis by simp
  qed
  have all: "Insert_all (Suc n) m xs = Some r \<Longrightarrow> Insert_all (Suc (Suc n)) m xs = Some r"
    for m :: "('k, 'v) HashMap" and xs r
  proof (induction xs arbitrary: m)
    case Nil
    then show ?case by simp
  next
    case (Cons x xs)
    from Cons.prems obtain m1 p where
      s1: "Insert (Suc n) m x (bucket m (fst x)) = Some (m1, p)"
      and s2: "Insert_all (Suc n) m1 xs = Some r"
      by (simp del: Insert.simps split: option.splits prod.splits)
    from ins [OF s1] Cons.IH [OF s2] show ?case
      by (simp del: Insert.simps)
  qed
  have reh: "Rehash (Suc (Suc n)) m t = Some r" if "Rehash (Suc n) m t = Some r"
    for m :: "('k, 'v) HashMap" and t r
    using that ihA by (auto simp del: Insert_all.simps split: if_splits)
  show ?case
  proof (intro conjI allI impI)
    fix m :: "('k, 'v) HashMap" and x pos r
    assume "Insert (Suc n) m x pos = Some r"
    then show "Insert (Suc (Suc n)) m x pos = Some r" by (rule ins)
  next
    fix m :: "('k, 'v) HashMap" and t r
    assume "Rehash (Suc n) m t = Some r"
    then show "Rehash (Suc (Suc n)) m t = Some r" by (rule reh)
  next
    fix m :: "('k, 'v) HashMap" and xs r
    assume "Insert_all (Suc n) m xs = Some r"
    then show "Insert_all (Suc (Suc n)) m xs = Some r" by (rule all)
  qed
qed

section \<open>What holds when the operations return\<close>

text \<open>
  From a default-constructed map, a run of \<^verbatim>\<open>insert\<close>, \<^verbatim>\<open>erase\<close> and \<^verbatim>\<open>clear\<close> that returns ends
  in a state whose entries have distinct keys and are, as a map, what the reference map
  holds after the same operations; \<^verbatim>\<open>size()\<close> is the number of entries.
\<close>

lemma run_agrees_with_reference:
  assumes d: "HashMap_default hf = Some m0" and r: "apply_ops n m0 ops = Some m"
  shows "distinct (map fst (iterate m)) \<and>
    map_of (iterate m) = reference_ops Map.empty ops \<and>
    size_hm m = u64 (length (iterate m))"
proof -
  from d have r0: "reachable m0" by (rule by_default)
  from d have "iterate m0 = []"
    by (auto simp add: HashMap_default_eq Rehash_reset_def blank_def Let_def iterate_def)
  with apply_ops_refines [OF r0 _ r] have "reachable m" "distinct (map fst (iterate m))"
    "map_of (iterate m) = reference_ops Map.empty ops" by simp_all
  with reachable_count [of m] show ?thesis by (simp add: size_hm_def iterate_def)
qed

text \<open>
  In a reachable state with distinct keys: \<^verbatim>\<open>find\<close> of a key that the map holds returns, with
  an iterator to the entry of that key; \<^verbatim>\<open>find\<close> of any key, when it returns, answers as the
  entry list says.
\<close>

lemma find_agrees_with_entries:
  assumes r: "reachable m" and dk: "distinct (map fst (iterate m))"
  shows "(map_of (iterate m) key = Some v \<longrightarrow>
      (\<exists>it. find_hm m key = Some it \<and> deref m it = Some (key, v))) \<and>
    (find_hm m key = Some it' \<longrightarrow>
      (case map_of (iterate m) key of None \<Rightarrow> it' = End
       | Some w \<Rightarrow> deref m it' = Some (key, w)))"
proof -
  from reachable_chains_ok [OF r] have ok: "chains_ok m" by blast
  show ?thesis
    using find_hm_present [OF ok dk] find_hm_refines [OF ok dk] by blast
qed


section \<open>Iteration order\<close>

text \<open>
  Claim C9. Iterating from \<^verbatim>\<open>begin()\<close> to \<^verbatim>\<open>end()\<close> yields the live entries in the order in
  which they were inserted. In every state, \<^verbatim>\<open>Insert\<close> puts the new entry behind all others,
  whether or not it rehashes on the way, and \<^verbatim>\<open>Rehash\<close> leaves the sequence as it is. In
  every reachable state \<^verbatim>\<open>insert\<close> appends the pair when the key is not among the entries
  and changes nothing otherwise; and when the keys of the entries are distinct, \<^verbatim>\<open>erase\<close>
  takes the entry of the key out of the sequence and leaves the others in their order.
\<close>

theorem iteration_in_insertion_order:
  "(Insert n m x pos = Some (m1, p) \<longrightarrow> iterate m1 = iterate m @ [x]) \<and>
   (Rehash n m t = Some m2 \<longrightarrow> iterate m2 = iterate m) \<and>
   (reachable m \<and> insert_hm n m (k, v) = Some m3 \<longrightarrow>
      iterate m3 =
        (if k \<in> fst ` set (iterate m) then iterate m else iterate m @ [(k, v)])) \<and>
   (reachable m \<and> distinct (map fst (iterate m)) \<and> erase m key = Some m4 \<longrightarrow>
      iterate m4 = filter (\<lambda>e. fst e \<noteq> key) (iterate m))"
proof (intro conjI impI)
  assume "Insert n m x pos = Some (m1, p)"
  then show "iterate m1 = iterate m @ [x]" by (rule Insert_iterate)
next
  assume "Rehash n m t = Some m2"
  then show "iterate m2 = iterate m" by (rule Rehash_iterate)
next
  assume a: "reachable m \<and> insert_hm n m (k, v) = Some m3"
  then have "chains_ok m" using reachable_chains_ok by blast
  moreover from a have "insert_hm n m (k, v) = Some m3" by simp
  ultimately show "iterate m3 =
      (if k \<in> fst ` set (iterate m) then iterate m else iterate m @ [(k, v)])"
    by (rule insert_hm_keys)
next
  assume a: "reachable m \<and> distinct (map fst (iterate m)) \<and> erase m key = Some m4"
  then have "chains_ok m" using reachable_chains_ok by blast
  moreover from a have "distinct (map fst (iterate m))" "erase m key = Some m4" by simp_all
  ultimately show "iterate m4 = filter (\<lambda>e. fst e \<noteq> key) (iterate m)"
    by (rule erase_filter)
qed

theorem iteration_in_insertion_order_witness:
  "reachable cycle_2 \<and> distinct (map fst (iterate cycle_2)) \<and>
   Insert (Suc (Suc (Suc 0))) cycle_2 (14, 14) 2 = Some (cycle_3, 7) \<and>
   Rehash (Suc (Suc (Suc 0))) cycle_2 6 = Some cycle_2_rehashed \<and>
   insert_hm (Suc (Suc (Suc 0))) cycle_2 (14, 14) = Some cycle_3 \<and>
   erase cycle_2 7 = Some cycle_2_erased \<and>
   iterate cycle_2 = [(0, 0), (7, 7)] \<and>
   iterate cycle_3 = [(0, 0), (7, 7), (14, 14)] \<and>
   iterate cycle_2_rehashed = [(0, 0), (7, 7)] \<and>
   iterate cycle_2_erased = [(0, 0)]"
proof -
  have i2: "iterate cycle_2 = [(0, 0), (7, 7)]"
    by (simp add: iterate_def cycle_2_def)
  have d2: "distinct (map fst (iterate cycle_2))"
    by (simp add: i2)
  have i3: "iterate cycle_3 = [(0, 0), (7, 7), (14, 14)]"
    by (simp add: iterate_def cycle_3_def)
  have ir: "iterate cycle_2_rehashed = [(0, 0), (7, 7)]"
    by (simp add: iterate_def cycle_2_rehashed_def)
  have e1: "iterate cycle_2_erased = [(0, 0)]"
    by (simp add: iterate_def cycle_2_erased_def)
  show ?thesis
    using iteration_in_insertion_order
      [where n = "Suc (Suc (Suc 0))" and m = cycle_2 and x = "(14, 14)" and pos = 2
         and ?m1.0 = cycle_3 and p = 7 and t = 6 and ?m2.0 = cycle_2_rehashed
         and k = 14 and v = 14 and ?m3.0 = cycle_3 and key = 7 and ?m4.0 = cycle_2_erased]
      cycle_3_Insert cycle_2_rehash cycle_step_3 cycle_2_erase reachable_cycle_2 d2 i2 i3 ir e1
    by simp
qed

end
